theory Spec2Isabelle
  imports
    Complex_Main
    "HOL-Library.Char_ord"
    "HOL-Library.List_Lexorder"
    "HOL-Library.Product_Lexorder"
begin

section \<open>Data model\<close>

text \<open>
  A token is a Python \<open>str\<close>; tokens are compared the way Python compares strings,
  lexicographically by character code (\<open>List_Lexorder\<close> over \<open>Char_ord\<close>).  A DocumentID
  and a term frequency are Python integers.  A Python \<open>dict\<close> keeps its keys in insertion
  order, so it is an association list with pairwise different keys: \<open>map_of\<close> is the
  lookup, \<open>dict_set\<close> the assignment \<open>d[k] = v\<close>.
\<close>

type_synonym token = string
type_synonym posting = "int \<times> int"
type_synonym spimi_index = "(token \<times> posting list) list"
type_synonym naive_index = "(token \<times> int list) list"

fun dict_set :: "'k \<Rightarrow> 'v \<Rightarrow> ('k \<times> 'v) list \<Rightarrow> ('k \<times> 'v) list" where
  "dict_set k v [] = [(k, v)]"
| "dict_set k v ((k', v') # kvs) =
     (if k = k' then (k, v) # kvs else (k', v') # dict_set k v kvs)"

section \<open>subProject1: the two index builders\<close>

subsection \<open>spimi\<close>

text \<open>
  The body of the inner loop of \<open>spimi\<close> for one token (lines 93 to 100): a term already
  in the index either has its last posting's frequency incremented, when that posting
  is for the current document, or gets a new posting \<open>(docID, 1)\<close>; a new term gets
  the list \<open>[(docID, 1)]\<close>.  The read \<open>postingsList[-1]\<close> would raise IndexError on
  an empty list; every list of the index is created with one posting and only
  grows, so the list is never empty there (this is part of the loop invariant
  \<open>postings_inv\<close> below).
\<close>

definition spimi_token :: "token \<Rightarrow> int \<Rightarrow> spimi_index \<Rightarrow> spimi_index" where
  "spimi_token token docID index =
     (case map_of index token of
        Some postingsList \<Rightarrow>
          (if fst (last postingsList) = docID
           then dict_set token
                  (butlast postingsList @ [(docID, snd (last postingsList) + 1)]) index
           else dict_set token (postingsList @ [(docID, 1)]) index)
      | None \<Rightarrow> dict_set token [(docID, 1)] index)"

text \<open>
  The test \<open>testCount and pairCount >= testCount\<close>: \<open>None\<close> and \<open>0\<close> are falsy.
\<close>

definition spimi_stop :: "int option \<Rightarrow> int \<Rightarrow> bool" where
  "spimi_stop testCount pairCount =
     (case testCount of None \<Rightarrow> False | Some n \<Rightarrow> n \<noteq> 0 \<and> pairCount \<ge> n)"

text \<open>The inner loop over the tokens of one document, with its \<open>break\<close>.\<close>

fun spimi_inner ::
  "int option \<Rightarrow> int \<Rightarrow> token list \<Rightarrow> spimi_index \<times> int \<Rightarrow> spimi_index \<times> int" where
  "spimi_inner testCount docID [] (index, pairCount) = (index, pairCount)"
| "spimi_inner testCount docID (token # tokens) (index, pairCount) =
     (let pairCount' = pairCount + 1;
          index' = spimi_token token docID index
      in if spimi_stop testCount pairCount' then (index', pairCount')
         else spimi_inner testCount docID tokens (index', pairCount'))"

text \<open>
  The outer loop over the documents: \<open>docID\<close> is incremented after each document,
  then the budget is tested again.
\<close>

fun spimi_outer ::
  "int option \<Rightarrow> int \<Rightarrow> token list list \<Rightarrow> spimi_index \<times> int \<Rightarrow> spimi_index \<times> int" where
  "spimi_outer testCount docID [] st = st"
| "spimi_outer testCount docID (tokens # tokensList) st =
     (let st' = spimi_inner testCount docID tokens st;
          docID' = docID + 1
      in if spimi_stop testCount (snd st') then st'
         else spimi_outer testCount docID' tokensList st')"

text \<open>
  \<open>spimi\<close> starts from the empty index, \<open>docID = 1\<close> and \<open>pairCount = 0\<close>, and returns
  the index with its items sorted by key.  (The elapsed time it also returns and the
  file it writes are not modelled.)
\<close>

definition spimi_build :: "token list list \<Rightarrow> int option \<Rightarrow> spimi_index" where
  "spimi_build tokensList testCount = fst (spimi_outer testCount 1 tokensList ([], 0))"

definition spimi :: "token list list \<Rightarrow> int option \<Rightarrow> spimi_index" where
  "spimi tokensList testCount = sort_key fst (spimi_build tokensList testCount)"

subsection \<open>naive\<close>

text \<open>The test \<open>testCount and len(F) == testCount\<close>.\<close>

definition naive_stop :: "int option \<Rightarrow> (token \<times> int) list \<Rightarrow> bool" where
  "naive_stop testCount F =
     (case testCount of None \<Rightarrow> False | Some n \<Rightarrow> n \<noteq> 0 \<and> int (length F) = n)"

fun naive_inner ::
  "int option \<Rightarrow> int \<Rightarrow> token list \<Rightarrow> (token \<times> int) list \<Rightarrow> (token \<times> int) list" where
  "naive_inner testCount docID [] F = F"
| "naive_inner testCount docID (token # tokens) F =
     (let F' = F @ [(token, docID)]
      in if naive_stop testCount F' then F'
         else naive_inner testCount docID tokens F')"

fun naive_outer ::
  "int option \<Rightarrow> int \<Rightarrow> token list list \<Rightarrow> (token \<times> int) list \<Rightarrow> (token \<times> int) list" where
  "naive_outer testCount docID [] F = F"
| "naive_outer testCount docID (tokens # tokensList) F =
     (let F' = naive_inner testCount docID tokens F;
          docID' = docID + 1
      in if naive_stop testCount F' then F'
         else naive_outer testCount docID' tokensList F')"

text \<open>The list \<open>F\<close> of (term, docID) pairs when the first loop of \<open>naive\<close> ends.\<close>

definition naive_pairs :: "token list list \<Rightarrow> int option \<Rightarrow> (token \<times> int) list" where
  "naive_pairs tokensList testCount = naive_outer testCount 1 tokensList []"

text \<open>
  \<open>list(dict.fromkeys(F))\<close>: the keys of the dictionary that receives the elements
  of \<open>F\<close> in order, so the first occurrence of each element, in order.
\<close>

definition fromkeys :: "'a list \<Rightarrow> 'a list" where
  "fromkeys F = map fst (fold (\<lambda>k d. dict_set k () d) F [])"

text \<open>
  The body of the grouping loop (lines 167 to 171).  As in \<open>spimi\<close>, a list of the
  index is created with one element and is never empty at \<open>index[term][-1]\<close>.
\<close>

definition naive_add :: "token \<times> int \<Rightarrow> naive_index \<Rightarrow> naive_index" where
  "naive_add p index =
     (case p of (term, docID) \<Rightarrow>
        (case map_of index term of
           Some postingsList \<Rightarrow>
             (if last postingsList \<noteq> docID
              then dict_set term (postingsList @ [docID]) index
              else index)
         | None \<Rightarrow> dict_set term [docID] index))"

definition naive :: "token list list \<Rightarrow> int option \<Rightarrow> naive_index" where
  "naive tokensList testCount =
     fold naive_add (fromkeys (sort (naive_pairs tokensList testCount))) []"

section \<open>subProject2: boolean retrieval and ranking\<close>

text \<open>
  Exceptions are values: a function that can raise returns \<open>py_error + 'a\<close>, with
  \<open>Inl\<close> the exception.  Python's \<open>None\<close> result is \<open>None\<close> of an option type.
\<close>

datatype py_error = IndexError | ZeroDivisionError | ValueError

text \<open>\<open>xs[i]\<close> for a Python list: a negative index counts from the end.\<close>

definition py_getitem :: "'a list \<Rightarrow> int \<Rightarrow> py_error + 'a" where
  "py_getitem xs i =
     (if 0 \<le> i \<and> i < int (length xs) then Inr (xs ! nat i)
      else if - int (length xs) \<le> i \<and> i < 0 then Inr (xs ! nat (int (length xs) + i))
      else Inl IndexError)"

text \<open>
  \<open>sorted(items, key=..., reverse=True)\<close>: Python reverses the list, sorts it stably in
  ascending order and reverses it again, so that equal keys keep their order.
\<close>

definition sorted_reverse :: "('a \<Rightarrow> 'k::linorder) \<Rightarrow> 'a list \<Rightarrow> 'a list" where
  "sorted_reverse key xs = rev (sort_key key (rev xs))"

subsection \<open>intersect\<close>

text \<open>The two-pointer \<open>while\<close> loop of \<open>intersect\<close>, on the indices \<open>i\<close> and \<open>j\<close>.\<close>

function intersect_loop ::
  "int list \<Rightarrow> int list \<Rightarrow> nat \<Rightarrow> nat \<Rightarrow> int list \<Rightarrow> int list" where
  "intersect_loop pList1 pList2 i j result =
     (if i < length pList1 \<and> j < length pList2 then
        (if pList1 ! i = pList2 ! j
         then intersect_loop pList1 pList2 (i + 1) (j + 1) (result @ [pList1 ! i])
         else if pList1 ! i < pList2 ! j
         then intersect_loop pList1 pList2 (i + 1) j result
         else intersect_loop pList1 pList2 i (j + 1) result)
      else result)"
  by pat_completeness auto
termination
  by (relation "measure (\<lambda>(p1, p2, i, j, r). (length p1 - i) + (length p2 - j))") auto

text \<open>The equation of the loop is unfolded by hand, one iteration at a time.\<close>

declare intersect_loop.simps [simp del]

definition intersect :: "int list \<Rightarrow> int list \<Rightarrow> int list" where
  "intersect pList1 pList2 = intersect_loop pList1 pList2 0 0 []"

subsection \<open>conjunction\<close>

text \<open>
  The loop over \<open>sortedPostingsLists[1:]\<close>, with its \<open>break\<close> on an empty
  intermediate result.
\<close>

fun conjunction_loop :: "int list \<Rightarrow> int list list \<Rightarrow> int list" where
  "conjunction_loop finalPostingsList [] = finalPostingsList"
| "conjunction_loop finalPostingsList (postingsList # rest) =
     (let finalPostingsList' = intersect finalPostingsList postingsList
      in if finalPostingsList' = [] then finalPostingsList'
         else conjunction_loop finalPostingsList' rest)"

text \<open>
  \<open>conjunction\<close> returns \<open>None\<close> when a postings list is absent; on the empty list
  of postings lists \<open>sortedPostingsLists[0]\<close> raises IndexError.
\<close>

definition conjunction :: "int list option list \<Rightarrow> py_error + int list option" where
  "conjunction postingsLists =
     (if None \<in> set postingsLists then Inr None
      else (case sort_key length (map the postingsLists) of
              [] \<Rightarrow> Inl IndexError
            | finalPostingsList # rest \<Rightarrow>
                Inr (Some (conjunction_loop finalPostingsList rest))))"

subsection \<open>queryTermRank and disjunction\<close>

definition queryTermRank :: "int list \<Rightarrow> (int \<times> int) list" where
  "queryTermRank postingsList =
     (let docFreq =
            fold (\<lambda>docID docFreq.
                    dict_set docID
                      ((case map_of docFreq docID of None \<Rightarrow> 0 | Some c \<Rightarrow> c) + 1) docFreq)
                 postingsList []
      in sorted_reverse snd docFreq)"

text \<open>
  The result of \<open>disjunction\<close> is a list of DocumentIDs or, with query-term ranking,
  a list of (DocumentID, matchCount) pairs.
\<close>

datatype query_result = Postings "int list" | Ranked "(int \<times> int) list"

definition disjunction :: "int list option list \<Rightarrow> bool \<Rightarrow> query_result option" where
  "disjunction postingsLists queryTermRanking =
     (let validPostingsLists = map the (filter (\<lambda>plist. plist \<noteq> None) postingsLists)
      in if validPostingsLists = [] then None
         else
           (let unionPostings = concat validPostingsLists
            in if \<not> queryTermRanking
               then Some (Postings (sorted_list_of_set (set unionPostings)))
               else Some (Ranked (queryTermRank (sort unionPostings)))))"

subsection \<open>bm25\<close>

text \<open>
  Python floats are idealised as real numbers: rounding is not modelled.  What is
  modelled is which values enter the formula, the order of the steps and every
  exception the steps can raise.
\<close>

definition py_log :: "real \<Rightarrow> py_error + real" where
  "py_log x = (if x \<le> 0 then Inl ValueError else Inr (ln x))"

text \<open>\<open>idf = math.log(N / df) if df != 0 else 0\<close>\<close>

definition bm25_idf :: "nat \<Rightarrow> nat \<Rightarrow> py_error + real" where
  "bm25_idf N df = (if df \<noteq> 0 then py_log (real N / real df) else Inr 0)"

text \<open>
  Line 161; both divisions raise ZeroDivisionError on a zero divisor.
\<close>

definition bm25_score :: "real \<Rightarrow> real \<Rightarrow> real \<Rightarrow> real \<Rightarrow> int \<Rightarrow> nat \<Rightarrow> py_error + real" where
  "bm25_score k1 b L_avg idf tf L_d =
     (if L_avg = 0 then Inl ZeroDivisionError
      else
        (let denominator = k1 * ((1 - b) + b * (real L_d / L_avg)) + real_of_int tf
         in if denominator = 0 then Inl ZeroDivisionError
            else Inr (idf * ((real_of_int tf * (k1 + 1)) / denominator))))"

text \<open>The body of the loop over one postings list (lines 158 to 165).\<close>

definition bm25_posting ::
  "token list list \<Rightarrow> int list \<Rightarrow> real \<Rightarrow> real \<Rightarrow> real \<Rightarrow> real \<Rightarrow> posting \<Rightarrow>
   (int \<times> real) list \<Rightarrow> py_error + (int \<times> real) list" where
  "bm25_posting collection result k1 b L_avg idf p rankedResults =
     (case p of (docID, tf) \<Rightarrow>
        if docID \<noteq> 0 \<and> docID \<in> set result then
          (case py_getitem collection docID of
             Inl e \<Rightarrow> Inl e
           | Inr doc \<Rightarrow>
               (case bm25_score k1 b L_avg idf tf (length doc) of
                  Inl e \<Rightarrow> Inl e
                | Inr score \<Rightarrow>
                    Inr (dict_set docID
                           ((case map_of rankedResults docID of None \<Rightarrow> 0 | Some s \<Rightarrow> s)
                            + score)
                           rankedResults)))
        else Inr rankedResults)"

fun bm25_postings ::
  "token list list \<Rightarrow> int list \<Rightarrow> real \<Rightarrow> real \<Rightarrow> real \<Rightarrow> real \<Rightarrow> posting list \<Rightarrow>
   (int \<times> real) list \<Rightarrow> py_error + (int \<times> real) list" where
  "bm25_postings collection result k1 b L_avg idf [] rankedResults = Inr rankedResults"
| "bm25_postings collection result k1 b L_avg idf (p # postingsList) rankedResults =
     (case bm25_posting collection result k1 b L_avg idf p rankedResults of
        Inl e \<Rightarrow> Inl e
      | Inr rankedResults' \<Rightarrow>
          bm25_postings collection result k1 b L_avg idf postingsList rankedResults')"

text \<open>The loop over the query terms (lines 152 to 165).\<close>

fun bm25_terms ::
  "token list list \<Rightarrow> int list \<Rightarrow> spimi_index \<Rightarrow> real \<Rightarrow> real \<Rightarrow> real \<Rightarrow> token list \<Rightarrow>
   (int \<times> real) list \<Rightarrow> py_error + (int \<times> real) list" where
  "bm25_terms collection result index k1 b L_avg [] rankedResults = Inr rankedResults"
| "bm25_terms collection result index k1 b L_avg (term # queryTerms) rankedResults =
     (let postingsList = (case map_of index term of None \<Rightarrow> [] | Some pl \<Rightarrow> pl);
          df = length postingsList
      in case bm25_idf (length collection) df of
           Inl e \<Rightarrow> Inl e
         | Inr idf \<Rightarrow>
             (case bm25_postings collection result k1 b L_avg idf postingsList rankedResults of
                Inl e \<Rightarrow> Inl e
              | Inr rankedResults' \<Rightarrow>
                  bm25_terms collection result index k1 b L_avg queryTerms rankedResults'))"

text \<open>\<open>L_avg = L_total / N\<close> raises ZeroDivisionError on the empty collection.\<close>

definition bm25_L_avg :: "token list list \<Rightarrow> py_error + real" where
  "bm25_L_avg collection =
     (let N = length collection; L_total = sum_list (map length collection)
      in if N = 0 then Inl ZeroDivisionError else Inr (real L_total / real N))"


definition bm25 ::
  "token list \<Rightarrow> int list option \<Rightarrow> spimi_index \<Rightarrow> token list list \<Rightarrow> real \<Rightarrow> real \<Rightarrow>
   py_error + (int \<times> real) list option" where
  "bm25 queryTerms result index collection k1 b =
     (case bm25_L_avg collection of
        Inl e \<Rightarrow> Inl e
      | Inr L_avg \<Rightarrow>
          (case result of
             None \<Rightarrow> Inr None
           | Some candidates \<Rightarrow>
               (case bm25_terms collection candidates index k1 b L_avg queryTerms [] of
                  Inl e \<Rightarrow> Inl e
                | Inr rankedResults \<Rightarrow>
                    if list_all (\<lambda>(docID, score). score = 0) rankedResults then Inr None
                    else Inr (Some (sorted_reverse snd rankedResults)))))"

section \<open>Notions used to state the properties\<close>

text \<open>
  The occurrence stream of a corpus: one (term, DocumentID) pair per token, in
  traversal order, the documents numbered from \<open>d\<close> on.
\<close>

fun pairs_from :: "int \<Rightarrow> token list list \<Rightarrow> (token \<times> int) list" where
  "pairs_from d [] = []"
| "pairs_from d (tokens # tokensList) =
     map (\<lambda>t. (t, d)) tokens @ pairs_from (d + 1) tokensList"

text \<open>
  An occurrence budget is absent or a number of occurrences, so not negative.
  Under the budget \<open>n \<ge> 1\<close> a builder is to consume the first \<open>n\<close> occurrences.
\<close>

definition budget_ok :: "int option \<Rightarrow> bool" where
  "budget_ok testCount = (case testCount of None \<Rightarrow> True | Some n \<Rightarrow> 0 \<le> n)"

definition budget_take :: "int option \<Rightarrow> 'a list \<Rightarrow> 'a list" where
  "budget_take testCount ps =
     (case testCount of None \<Rightarrow> ps | Some n \<Rightarrow> if n = 0 then ps else take (nat n) ps)"

text \<open>The DocumentIDs that a stream of pairs gives for one term, in stream order.\<close>

definition docs_of :: "'a \<Rightarrow> ('a \<times> int) list \<Rightarrow> int list" where
  "docs_of term ps = map snd (filter (\<lambda>p. fst p = term) ps)"

text \<open>
  Run-length encoding of a DocumentID sequence, one step: what \<open>spimi_token\<close> does
  to the postings list of its term.
\<close>

definition rle_add :: "int \<Rightarrow> posting list \<Rightarrow> posting list" where
  "rle_add d pl =
     (if pl \<noteq> [] \<and> fst (last pl) = d
      then butlast pl @ [(d, snd (last pl) + 1)] else pl @ [(d, 1)])"

text \<open>\<open>spimi_token\<close> applied along a stream of pairs.\<close>

definition spimi_steps :: "(token \<times> int) list \<Rightarrow> spimi_index \<Rightarrow> spimi_index" where
  "spimi_steps ps index = fold (\<lambda>(t, d). spimi_token t d) ps index"

text \<open>The sum of all term frequencies of an index.\<close>

definition total_tf :: "spimi_index \<Rightarrow> int" where
  "total_tf index =
     sum_list (map (\<lambda>(t, postingsList). sum_list (map snd postingsList)) index)"

text \<open>
  The loop invariant of \<open>spimi\<close> at document \<open>d\<close>: every postings list is non-empty,
  strictly increasing by DocumentID, and ends at a DocumentID not above \<open>d\<close>.
\<close>

definition postings_inv :: "int \<Rightarrow> spimi_index \<Rightarrow> bool" where
  "postings_inv d index =
     list_all (\<lambda>(t, pl). pl \<noteq> [] \<and> sorted_wrt (<) (map fst pl) \<and> fst (last pl) \<le> d) index"

text \<open>
  The document that the builders number \<open>d\<close>: they count the documents of the
  collection from 1, so it is the element at the 0-based position \<open>d - 1\<close>.
\<close>

definition doc_by_id :: "token list list \<Rightarrow> int \<Rightarrow> token list" where
  "doc_by_id collection d = collection ! nat (d - 1)"

text \<open>
  The BM25 contribution of one posting as the specification words it: \<open>idf(t)\<close> is
  \<open>ln (N / df(t))\<close> if \<open>df(t) > 0\<close> and \<open>0\<close> otherwise, and the contribution of a posting
  with term frequency \<open>tf\<close> in a document of length \<open>L_d\<close> is
  \<open>idf(t) * (tf * (k1 + 1)) / (k1 * ((1 - b) + b * (L_d / avgDocLength)) + tf)\<close>,
  where \<open>L_d\<close> is the length of the document that the posting's DocumentID names.
\<close>

definition spec_idf :: "nat \<Rightarrow> nat \<Rightarrow> real" where
  "spec_idf N df = (if df > 0 then ln (real N / real df) else 0)"

definition spec_avgDocLength :: "token list list \<Rightarrow> real" where
  "spec_avgDocLength collection =
     real (sum_list (map length collection)) / real (length collection)"

definition spec_contribution ::
  "token list list \<Rightarrow> real \<Rightarrow> real \<Rightarrow> nat \<Rightarrow> posting \<Rightarrow> real" where
  "spec_contribution collection k1 b df p =
     (case p of (docID, tf) \<Rightarrow>
        spec_idf (length collection) df * (real_of_int tf * (k1 + 1)) /
          (k1 * ((1 - b) +
                 b * (real (length (doc_by_id collection docID)) / spec_avgDocLength collection))
           + real_of_int tf))"

section \<open>Dictionaries\<close>

lemma map_of_dict_set: "map_of (dict_set k v d) = (map_of d)(k \<mapsto> v)"
  by (induction d) (auto simp: fun_eq_iff)

lemma keys_dict_set:
  "map fst (dict_set k v d) = (if k \<in> fst ` set d then map fst d else map fst d @ [k])"
  by (induction d) (force+)

lemma distinct_dict_set:
  "distinct (map fst d) \<Longrightarrow> distinct (map fst (dict_set k v d))"
  by (simp add: keys_dict_set)

lemma set_dict_set_subset: "set (dict_set k v d) \<subseteq> insert (k, v) (set d)"
  by (induction d) (auto split: if_splits)

section \<open>The stream consumed by the builders\<close>

lemma spimi_steps_append:
  "spimi_steps (ps @ qs) index = spimi_steps qs (spimi_steps ps index)"
  by (simp add: spimi_steps_def)

lemma spimi_steps_Cons:
  "spimi_steps ((t, d) # ps) index = spimi_steps ps (spimi_token t d index)"
  by (simp add: spimi_steps_def)

lemma spimi_steps_Nil: "spimi_steps [] index = index"
  by (simp add: spimi_steps_def)

lemma spimi_inner_budget:
  "0 < n \<Longrightarrow> p < n \<Longrightarrow>
   spimi_inner (Some n) d tokens (index, p) =
     (spimi_steps (map (\<lambda>t. (t, d)) (take (nat (n - p)) tokens)) index,
      p + int (min (length tokens) (nat (n - p))))"
proof (induction tokens arbitrary: index p)
  case Nil
  show ?case by (simp add: spimi_steps_Nil)
next
  case (Cons t tokens)
  have tk: "take (nat (n - p)) (t # tokens) = t # take (nat (n - (p + 1))) tokens"
  proof -
    have "nat (n - p) = Suc (nat (n - (p + 1)))" using Cons.prems by linarith
    then show ?thesis by simp
  qed
  show ?case
  proof (cases "spimi_stop (Some n) (p + 1)")
    case True
    then have "n = p + 1" using Cons.prems by (simp add: spimi_stop_def)
    then show ?thesis
      using True by (simp add: spimi_steps_Cons spimi_steps_Nil)
  next
    case False
    then have lt: "p + 1 < n" using Cons.prems by (simp add: spimi_stop_def)
    have suc: "nat (n - p) = Suc (nat (n - (p + 1)))" using lt by linarith
    have len: "p + 1 + int (min (length tokens) (nat (n - (p + 1)))) =
        p + int (min (length (t # tokens)) (nat (n - p)))"
      unfolding suc by simp
    have "spimi_inner (Some n) d (t # tokens) (index, p) =
        spimi_inner (Some n) d tokens (spimi_token t d index, p + 1)"
      using False by (simp add: Let_def)
    also have "\<dots> =
        (spimi_steps (map (\<lambda>t. (t, d)) (take (nat (n - (p + 1))) tokens))
           (spimi_token t d index),
         p + 1 + int (min (length tokens) (nat (n - (p + 1)))))"
      by (rule Cons.IH [OF Cons.prems(1) lt])
    finally show ?thesis
      by (simp only: tk len list.map spimi_steps_Cons)
  qed
qed

lemma spimi_inner_unlimited:
  "testCount = None \<or> testCount = Some 0 \<Longrightarrow>
   spimi_inner testCount d tokens (index, p) =
     (spimi_steps (map (\<lambda>t. (t, d)) tokens) index, p + int (length tokens))"
  by (induction tokens arbitrary: index p)
     (auto simp: spimi_steps_Nil spimi_steps_Cons spimi_stop_def)

lemma length_pairs_from: "length (pairs_from d tokensList) = sum_list (map length tokensList)"
  by (induction tokensList arbitrary: d) auto

lemma spimi_outer_budget:
  "0 < n \<Longrightarrow> p < n \<Longrightarrow>
   spimi_outer (Some n) d tokensList (index, p) =
     (spimi_steps (take (nat (n - p)) (pairs_from d tokensList)) index,
      p + int (min (length (pairs_from d tokensList)) (nat (n - p))))"
proof (induction tokensList arbitrary: d index p)
  case Nil
  show ?case by (simp add: spimi_steps_Nil)
next
  case (Cons tokens tokensList)
  let ?k = "nat (n - p)"
  let ?doc = "map (\<lambda>t. (t, d)) tokens"
  have inner: "spimi_inner (Some n) d tokens (index, p) =
     (spimi_steps (map (\<lambda>t. (t, d)) (take ?k tokens)) index,
      p + int (min (length tokens) ?k))"
    by (rule spimi_inner_budget [OF Cons.prems])
  show ?case
  proof (cases "?k \<le> length tokens")
    case True
    then have stop: "spimi_stop (Some n) (p + int (min (length tokens) ?k))"
      using Cons.prems by (simp add: spimi_stop_def min_def)
    show ?thesis
      using True stop by (simp add: inner take_map min_def)
  next
    case False
    then have short: "length tokens < ?k" by simp
    then have lt: "p + int (length tokens) < n" by linarith
    have nostop: "\<not> spimi_stop (Some n) (p + int (min (length tokens) ?k))"
      using short lt by (simp add: spimi_stop_def min_def)
    have k': "nat (n - (p + int (length tokens))) = ?k - length tokens"
      using short by linarith
    have len: "p + int (min (length (pairs_from d (tokens # tokensList))) ?k) =
        p + int (length tokens) +
        int (min (length (pairs_from (d + 1) tokensList)) (?k - length tokens))"
    proof -
      have "min (length tokens + length (pairs_from (d + 1) tokensList)) ?k =
          length tokens + min (length (pairs_from (d + 1) tokensList)) (?k - length tokens)"
        using short by arith
      then show ?thesis by simp
    qed
    have tk: "take ?k (pairs_from d (tokens # tokensList)) =
        ?doc @ take (?k - length tokens) (pairs_from (d + 1) tokensList)"
      using short by simp
    have "spimi_outer (Some n) d (tokens # tokensList) (index, p) =
        spimi_outer (Some n) (d + 1) tokensList
          (spimi_steps ?doc index, p + int (length tokens))"
      using nostop short by (simp add: inner min_def)
    also have "\<dots> = (spimi_steps (take (?k - length tokens) (pairs_from (d + 1) tokensList))
          (spimi_steps ?doc index),
        p + int (length tokens) +
        int (min (length (pairs_from (d + 1) tokensList)) (?k - length tokens)))"
      using Cons.IH [OF Cons.prems(1) lt, of "d + 1"] by (simp only: k')
    finally show ?thesis
      by (simp only: len tk spimi_steps_append)
  qed
qed

lemma spimi_outer_unlimited:
  "testCount = None \<or> testCount = Some 0 \<Longrightarrow>
   spimi_outer testCount d tokensList (index, p) =
     (spimi_steps (pairs_from d tokensList) index,
      p + int (length (pairs_from d tokensList)))"
proof (induction tokensList arbitrary: d index p)
  case Nil
  show ?case by (simp add: spimi_steps_Nil)
next
  case (Cons tokens tokensList)
  have ns: "\<And>q. \<not> spimi_stop testCount q"
    using Cons.prems by (auto simp: spimi_stop_def)
  show ?case
    using Cons.IH [OF Cons.prems] 
    by (simp add: spimi_inner_unlimited [OF Cons.prems] ns spimi_steps_append)
qed

lemma spimi_build_stream:
  assumes "budget_ok testCount"
  shows "spimi_build tokensList testCount =
           spimi_steps (budget_take testCount (pairs_from 1 tokensList)) []"
proof (cases "testCount = None \<or> testCount = Some 0")
  case True
  then show ?thesis
    by (auto simp: spimi_build_def spimi_outer_unlimited budget_take_def)
next
  case False
  then obtain n where n: "testCount = Some n" "0 < n"
    using assms by (cases testCount) (auto simp: budget_ok_def)
  show ?thesis
    using spimi_outer_budget [of n 0 1 tokensList "[]"] n
    by (simp add: spimi_build_def budget_take_def)
qed

lemma naive_inner_budget:
  "0 < n \<Longrightarrow> int (length F) < n \<Longrightarrow>
   naive_inner (Some n) d tokens F = F @ map (\<lambda>t. (t, d)) (take (nat n - length F) tokens)"
proof (induction tokens arbitrary: F)
  case Nil
  show ?case by simp
next
  case (Cons t tokens)
  have suc: "nat n - length F = Suc (nat n - length (F @ [(t, d)]))"
    using Cons.prems by simp
  show ?case
  proof (cases "naive_stop (Some n) (F @ [(t, d)])")
    case True
    then have "nat n - length (F @ [(t, d)]) = 0"
      by (simp add: naive_stop_def) linarith
    then show ?thesis
      using True unfolding suc by (simp add: Let_def)
  next
    case False
    then have lt: "int (length (F @ [(t, d)])) < n"
      using Cons.prems by (simp add: naive_stop_def)
    have "naive_inner (Some n) d (t # tokens) F = naive_inner (Some n) d tokens (F @ [(t, d)])"
      using False by (simp add: Let_def)
    also have "\<dots> = (F @ [(t, d)]) @
        map (\<lambda>t. (t, d)) (take (nat n - length (F @ [(t, d)])) tokens)"
      by (rule Cons.IH [OF Cons.prems(1) lt])
    finally show ?thesis
      unfolding suc by simp
  qed
qed

lemma naive_inner_unlimited:
  "testCount = None \<or> testCount = Some 0 \<Longrightarrow>
   naive_inner testCount d tokens F = F @ map (\<lambda>t. (t, d)) tokens"
  by (induction tokens arbitrary: F) (auto simp: naive_stop_def)

lemma naive_outer_budget:
  "0 < n \<Longrightarrow> int (length F) < n \<Longrightarrow>
   naive_outer (Some n) d tokensList F = F @ take (nat n - length F) (pairs_from d tokensList)"
proof (induction tokensList arbitrary: d F)
  case Nil
  show ?case by simp
next
  case (Cons tokens tokensList)
  let ?k = "nat n - length F"
  let ?F' = "F @ map (\<lambda>t. (t, d)) (take ?k tokens)"
  have inner: "naive_inner (Some n) d tokens F = ?F'"
    by (rule naive_inner_budget [OF Cons.prems])
  show ?case
  proof (cases "?k \<le> length tokens")
    case True
    then have "int (length ?F') = n"
      using Cons.prems by (simp add: min_def)
    then have stop: "naive_stop (Some n) ?F'"
      using Cons.prems by (simp add: naive_stop_def)
    show ?thesis
      using True stop by (simp add: inner take_map Let_def)
  next
    case False
    then have short: "length tokens < ?k" by simp
    let ?G = "F @ map (\<lambda>t. (t, d)) tokens"
    have F': "?F' = ?G" using short by simp
    have lt: "int (length ?G) < n" using short by simp
    have nostop: "\<not> naive_stop (Some n) ?G"
      using lt by (simp add: naive_stop_def)
    have k': "nat n - length ?G = ?k - length tokens" by simp
    have "naive_outer (Some n) d (tokens # tokensList) F =
        naive_outer (Some n) (d + 1) tokensList ?G"
      using nostop by (simp add: inner F' Let_def)
    also have "\<dots> = ?G @ take (nat n - length ?G) (pairs_from (d + 1) tokensList)"
      by (rule Cons.IH [OF Cons.prems(1) lt])
    finally show ?thesis
      using short by (simp add: k')
  qed
qed

lemma naive_outer_unlimited:
  "testCount = None \<or> testCount = Some 0 \<Longrightarrow>
   naive_outer testCount d tokensList F = F @ pairs_from d tokensList"
proof (induction tokensList arbitrary: d F)
  case Nil
  show ?case by simp
next
  case (Cons tokens tokensList)
  have ns: "\<And>G. \<not> naive_stop testCount G"
    using Cons.prems by (auto simp: naive_stop_def)
  show ?case
    using Cons.IH [OF Cons.prems]
    by (simp add: naive_inner_unlimited [OF Cons.prems] ns)
qed

lemma naive_pairs_stream:
  assumes "budget_ok testCount"
  shows "naive_pairs tokensList testCount = budget_take testCount (pairs_from 1 tokensList)"
proof (cases "testCount = None \<or> testCount = Some 0")
  case True
  then show ?thesis
    by (auto simp: naive_pairs_def naive_outer_unlimited budget_take_def)
next
  case False
  then obtain n where n: "testCount = Some n" "0 < n"
    using assms by (cases testCount) (auto simp: budget_ok_def)
  show ?thesis
    using naive_outer_budget [of n "[]" 1 tokensList] n
    by (simp add: naive_pairs_def budget_take_def)
qed

text \<open>
  A negative number is not an occurrence budget.  There the two tests differ
  (\<open>>=\<close> in \<open>spimi\<close>, \<open>==\<close> in \<open>naive\<close>): \<open>spimi\<close> stops after its first token and
  \<open>naive\<close> never stops.
\<close>

lemma negative_budget_streams:
  "spimi_build [[''a'', ''b'']] (Some (- 1)) = [(''a'', [(1, 1)])] \<and>
   naive_pairs [[''a'', ''b'']] (Some (- 1)) = [(''a'', 1), (''b'', 1)]"
  by code_simp

section \<open>What the builders store for a term\<close>

lemma rle_add_nonempty: "rle_add d pl \<noteq> []"
  by (simp add: rle_add_def)

lemma fold_rle_add_nonempty: "xs \<noteq> [] \<Longrightarrow> fold rle_add xs [] \<noteq> []"
  by (induction xs rule: rev_induct) (simp_all add: rle_add_nonempty)

lemma map_of_spimi_token:
  assumes "map_of index t \<noteq> Some []"
  shows "map_of (spimi_token t d index) =
     (map_of index)(t \<mapsto> rle_add d (case map_of index t of None \<Rightarrow> [] | Some pl \<Rightarrow> pl))"
  using assms
  by (auto simp: spimi_token_def map_of_dict_set rle_add_def split: option.splits)

lemma docs_of_snoc:
  "docs_of term (ps @ [(t, d)]) = (if t = term then docs_of term ps @ [d] else docs_of term ps)"
  by (simp add: docs_of_def)

lemma map_of_spimi_steps:
  "map_of (spimi_steps ps []) term =
     (if docs_of term ps = [] then None else Some (fold rle_add (docs_of term ps) []))"
proof (induction ps arbitrary: "term" rule: rev_induct)
  case Nil
  show ?case by (simp add: spimi_steps_def docs_of_def)
next
  case (snoc p ps)
  obtain t d where p: "p = (t, d)" by (cases p)
  have ne: "map_of (spimi_steps ps []) t \<noteq> Some []"
    using snoc [of t] fold_rle_add_nonempty by auto
  have step: "spimi_steps (ps @ [p]) [] = spimi_token t d (spimi_steps ps [])"
    by (simp add: spimi_steps_def p)
  show ?case
    unfolding step map_of_spimi_token [OF ne]
    by (simp add: snoc p docs_of_snoc)
qed

lemma remdups_adj_snoc:
  "remdups_adj (xs @ [x]) =
     (if xs \<noteq> [] \<and> last xs = x then remdups_adj xs else remdups_adj xs @ [x])"
proof (cases xs rule: rev_cases)
  case Nil
  then show ?thesis by simp
next
  case (snoc ys y)
  then show ?thesis by (simp add: remdups_adj_append_two)
qed

lemma map_butlast_last: "l \<noteq> [] \<Longrightarrow> map f (butlast l) @ [f (last l)] = map f l"
  by (induction l) auto

lemma sum_butlast_last:
  "l \<noteq> [] \<Longrightarrow> sum_list (map f (butlast l)) + f (last l) = (sum_list (map f l) :: int)"
  by (induction l) auto

lemma map_fst_rle_add:
  "map fst (rle_add x l) =
     (if l \<noteq> [] \<and> fst (last l) = x then map fst l else map fst l @ [x])"
  using map_butlast_last [of l fst] by (auto simp: rle_add_def)

lemma sum_snd_rle_add: "sum_list (map snd (rle_add x l)) = sum_list (map snd l) + 1"
  using sum_butlast_last [of l snd] by (auto simp: rle_add_def)

lemma map_fst_rle:
  "map fst (fold rle_add xs []) = remdups_adj xs"
proof (induction xs rule: rev_induct)
  case Nil
  show ?case by simp
next
  case (snoc x xs)
  define l where "l = fold rle_add xs []"
  have IH: "map fst l = remdups_adj xs"
    unfolding l_def by (rule snoc)
  have ne: "l \<noteq> [] \<longleftrightarrow> xs \<noteq> []"
    using IH by (metis map_is_Nil_conv remdups_adj_Nil_iff)
  have lst: "xs \<noteq> [] \<Longrightarrow> fst (last l) = last xs"
    using IH ne by (metis last_map last_remdups_adj)
  have "fold rle_add (xs @ [x]) [] = rle_add x l"
    by (simp add: l_def)
  then show ?case
    using ne lst IH by (auto simp: map_fst_rle_add remdups_adj_snoc)
qed

lemma sum_snd_rle:
  "sum_list (map snd (fold rle_add xs [])) = int (length xs)"
  by (induction xs rule: rev_induct) (simp_all add: sum_snd_rle_add)

lemma map_of_naive_add:
  assumes "map_of index t = (if xs = [] then None else Some (remdups_adj xs))"
  shows "map_of (naive_add (t, d) index) =
           (map_of index)(t \<mapsto> remdups_adj (xs @ [d]))"
proof (cases "xs = []")
  case True
  then show ?thesis
    using assms by (simp add: naive_add_def map_of_dict_set)
next
  case False
  then have look: "map_of index t = Some (remdups_adj xs)"
    using assms by simp
  show ?thesis
  proof (cases "last xs = d")
    case True
    then show ?thesis
      using False look by (auto simp: naive_add_def remdups_adj_snoc)
  next
    case neq: False
    then show ?thesis
      using False look by (simp add: naive_add_def remdups_adj_snoc map_of_dict_set)
  qed
qed

lemma map_of_naive_add_steps:
  "map_of (fold naive_add ps []) term =
     (if docs_of term ps = [] then None else Some (remdups_adj (docs_of term ps)))"
proof (induction ps arbitrary: "term" rule: rev_induct)
  case Nil
  show ?case by (simp add: docs_of_def)
next
  case (snoc p ps)
  obtain t d where p: "p = (t, d)" by (cases p)
  define idx where "idx = fold naive_add ps []"
  have step: "fold naive_add (ps @ [p]) [] = naive_add (t, d) idx"
    by (simp add: p idx_def)
  have IH: "\<And>term. map_of idx term =
      (if docs_of term ps = [] then None else Some (remdups_adj (docs_of term ps)))"
    unfolding idx_def by (rule snoc)
  show ?case
    unfolding step map_of_naive_add [OF IH [of t]]
    by (simp add: IH p docs_of_snoc)
qed

lemma fromkeys_Nil: "fromkeys [] = []"
  by (simp add: fromkeys_def)

lemma fromkeys_snoc:
  "fromkeys (xs @ [x]) = (if x \<in> set (fromkeys xs) then fromkeys xs else fromkeys xs @ [x])"
  by (simp add: fromkeys_def keys_dict_set)

lemma set_fromkeys: "set (fromkeys xs) = set xs"
  by (induction xs rule: rev_induct) (auto simp: fromkeys_Nil fromkeys_snoc)

lemma distinct_fromkeys: "distinct (fromkeys xs)"
  by (induction xs rule: rev_induct) (auto simp: fromkeys_Nil fromkeys_snoc)

lemma sorted_fromkeys: "sorted xs \<Longrightarrow> sorted (fromkeys xs)"
  by (induction xs rule: rev_induct)
     (auto simp: fromkeys_Nil fromkeys_snoc sorted_append set_fromkeys)

lemma pairs_from_ge: "(t, e) \<in> set (pairs_from d tokensList) \<Longrightarrow> d \<le> e"
proof (induction tokensList arbitrary: d)
  case Nil
  then show ?case by simp
next
  case (Cons tokens tokensList)
  then show ?case by (fastforce dest: Cons.IH)
qed

lemma sorted_pairs_from: "sorted (map snd (pairs_from d tokensList))"
proof (induction tokensList arbitrary: d)
  case Nil
  show ?case by simp
next
  case (Cons tokens tokensList)
  have doc: "sorted (map snd (map (\<lambda>t. (t, d)) tokens))"
    by (induction tokens) auto
  have le: "\<forall>x \<in> set (map snd (map (\<lambda>t. (t, d)) tokens)).
            \<forall>y \<in> set (map snd (pairs_from (d + 1) tokensList)). x \<le> y"
    using pairs_from_ge [of _ _ "d + 1" tokensList] by fastforce
  show ?case
    using doc le Cons.IH [of "d + 1"]
    by (simp only: pairs_from.simps map_append sorted_append)
qed

lemma sorted_budget_take:
  "sorted (map snd ps) \<Longrightarrow> sorted (map snd (budget_take testCount ps))"
  by (auto simp: budget_take_def take_map [symmetric] split: option.splits)

lemma set_docs_of: "set (docs_of term ps) = {d. (term, d) \<in> set ps}"
  by (force simp: docs_of_def)

lemma docs_of_Nil_iff: "docs_of term ps = [] \<longleftrightarrow> term \<notin> fst ` set ps"
  by (induction ps) (auto simp: docs_of_def)

lemma sorted_docs_of: "sorted (map snd ps) \<Longrightarrow> sorted (docs_of term ps)"
  unfolding docs_of_def by (rule sorted_filter)

lemma strict_docs_of:
  fixes ps :: "('a::linorder \<times> int) list"
  assumes "sorted ps" "distinct ps"
  shows "sorted_wrt (<) (docs_of term ps)"
proof -
  let ?qs = "filter (\<lambda>p. fst p = term) ps"
  have "sorted_wrt (<) ps"
    using assms by (simp add: strict_sorted_iff)
  then have "sorted_wrt (<) ?qs"
    by (rule sorted_wrt_filter)
  then have "sorted_wrt (\<lambda>x y. snd x < snd y) ?qs"
    by (rule sorted_wrt_mono_rel [rotated]) (auto simp: less_prod_def')
  then show ?thesis
    by (simp add: docs_of_def sorted_wrt_map)
qed

lemma distinct_remdups_adj_sorted:
  fixes xs :: "'a::linorder list"
  shows "sorted xs \<Longrightarrow> distinct (remdups_adj xs)"
  by (induction xs rule: remdups_adj.induct) (auto split: if_splits)

lemma strict_remdups_adj:
  fixes xs :: "'a::linorder list"
  shows "sorted xs \<Longrightarrow> sorted_wrt (<) (remdups_adj xs)"
  by (simp add: strict_sorted_iff distinct_remdups_adj_sorted)

lemma docs_of_sorted_pairs:
  fixes ps :: "('a::linorder \<times> int) list"
  assumes "sorted (map snd ps)"
  shows "docs_of term (fromkeys (sort ps)) = remdups_adj (docs_of term ps)"
proof -
  have l: "sorted_wrt (<) (docs_of term (fromkeys (sort ps)))"
    by (rule strict_docs_of) (simp_all add: sorted_fromkeys distinct_fromkeys)
  have r: "sorted_wrt (<) (remdups_adj (docs_of term ps))"
    by (rule strict_remdups_adj) (rule sorted_docs_of [OF assms])
  have s: "set (docs_of term (fromkeys (sort ps))) = set (remdups_adj (docs_of term ps))"
    by (simp add: set_docs_of set_fromkeys)
  show ?thesis
    using l r s by (simp add: strict_sorted_iff sorted_distinct_set_unique)
qed

lemma distinct_keys_spimi_token:
  "distinct (map fst index) \<Longrightarrow> distinct (map fst (spimi_token t d index))"
  by (simp add: spimi_token_def distinct_dict_set split: option.splits)

lemma distinct_keys_spimi_steps:
  "distinct (map fst index) \<Longrightarrow> distinct (map fst (spimi_steps ps index))"
proof (induction ps arbitrary: index)
  case Nil
  then show ?case by (simp add: spimi_steps_Nil)
next
  case (Cons p ps)
  obtain t d where p: "p = (t, d)" by (cases p)
  show ?case
    unfolding p spimi_steps_Cons
    by (rule Cons.IH) (rule distinct_keys_spimi_token [OF Cons.prems])
qed

lemma distinct_keys_naive_add:
  "distinct (map fst index) \<Longrightarrow> distinct (map fst (naive_add p index))"
  by (cases p) (simp add: naive_add_def distinct_dict_set split: option.splits)

lemma distinct_keys_naive_fold:
  "distinct (map fst index) \<Longrightarrow> distinct (map fst (fold naive_add ps index))"
  by (induction ps arbitrary: index) (simp_all add: distinct_keys_naive_add)

lemma distinct_keys_naive: "distinct (map fst (naive tokensList testCount))"
  unfolding naive_def by (rule distinct_keys_naive_fold) simp

lemma map_of_sort_key:
  assumes "distinct (map fst xs)"
  shows "map_of (sort_key fst xs) = map_of xs"
proof -
  have "distinct (map fst (sort_key fst xs))"
    using assms by (metis distinct_map distinct_sort set_sort)
  then show ?thesis
    using assms by (simp add: map_of_inject_set)
qed

lemma map_of_spimi:
  assumes "budget_ok testCount"
  shows "map_of (spimi tokensList testCount) term =
     (let xs = docs_of term (budget_take testCount (pairs_from 1 tokensList))
      in if xs = [] then None else Some (fold rle_add xs []))"
proof -
  have "distinct (map fst (spimi_build tokensList testCount))"
    unfolding spimi_build_stream [OF assms] by (rule distinct_keys_spimi_steps) simp
  then have "map_of (spimi tokensList testCount) = map_of (spimi_build tokensList testCount)"
    unfolding spimi_def by (rule map_of_sort_key)
  then show ?thesis
    by (simp add: spimi_build_stream [OF assms] map_of_spimi_steps Let_def)
qed

lemma map_of_naive:
  assumes "budget_ok testCount"
  shows "map_of (naive tokensList testCount) term =
     (let xs = docs_of term (budget_take testCount (pairs_from 1 tokensList))
      in if xs = [] then None else Some (remdups_adj xs))"
proof -
  let ?S = "budget_take testCount (pairs_from 1 tokensList)"
  have srt: "sorted (map snd ?S)"
    by (rule sorted_budget_take) (rule sorted_pairs_from)
  have eq: "docs_of term (fromkeys (sort ?S)) = remdups_adj (docs_of term ?S)"
    by (rule docs_of_sorted_pairs [OF srt])
  have idem: "remdups_adj (remdups_adj (docs_of term ?S)) = remdups_adj (docs_of term ?S)"
    by (rule remdups_adj_distinct)
       (rule distinct_remdups_adj_sorted [OF sorted_docs_of [OF srt]])
  show ?thesis
    by (simp add: naive_def naive_pairs_stream [OF assms] map_of_naive_add_steps eq idem
        Let_def)
qed

lemma distinct_keys_spimi:
  assumes "budget_ok testCount"
  shows "distinct (map fst (spimi tokensList testCount))"
proof -
  have "distinct (map fst (spimi_build tokensList testCount))"
    unfolding spimi_build_stream [OF assms] by (rule distinct_keys_spimi_steps) simp
  then show ?thesis
    unfolding spimi_def by (metis distinct_map distinct_sort set_sort)
qed

section \<open>Strictly increasing postings lists\<close>

lemma strict_sorted_le_last:
  fixes xs :: "'a::linorder list"
  shows "sorted_wrt (<) xs \<Longrightarrow> x \<in> set xs \<Longrightarrow> x \<le> last xs"
  by (induction xs) (auto simp: less_imp_le)

lemma postings_inv_mono: "d \<le> e \<Longrightarrow> postings_inv d index \<Longrightarrow> postings_inv e index"
  by (auto simp: postings_inv_def list_all_iff)

lemma postings_inv_dict_set:
  assumes "postings_inv d index"
    and "pl \<noteq> []" and "sorted_wrt (<) (map fst pl)" and "fst (last pl) \<le> d"
  shows "postings_inv d (dict_set t pl index)"
  using assms set_dict_set_subset [of t pl index]
  by (auto simp: postings_inv_def list_all_iff)

lemma postings_inv_token:
  assumes "postings_inv d index"
  shows "postings_inv d (spimi_token t d index)"
proof (cases "map_of index t")
  case None
  then show ?thesis
    using assms by (simp add: spimi_token_def postings_inv_dict_set)
next
  case (Some pl)
  then have "(t, pl) \<in> set index" by (rule map_of_SomeD)
  then have pl: "pl \<noteq> []" "sorted_wrt (<) (map fst pl)" "fst (last pl) \<le> d"
    using assms by (auto simp: postings_inv_def list_all_iff)
  show ?thesis
  proof (cases "fst (last pl) = d")
    case True
    have "map fst (butlast pl @ [(d, snd (last pl) + 1)]) = map fst pl"
      using True map_butlast_last [OF pl(1), of fst] by simp
    then have "postings_inv d (dict_set t (butlast pl @ [(d, snd (last pl) + 1)]) index)"
      using pl by (intro postings_inv_dict_set [OF assms]) simp_all
    then show ?thesis
      using Some True by (simp add: spimi_token_def)
  next
    case False
    have "\<forall>x \<in> set (map fst pl). x < d"
    proof
      fix x assume "x \<in> set (map fst pl)"
      then have "x \<le> last (map fst pl)"
        by (rule strict_sorted_le_last [OF pl(2)])
      then show "x < d"
        using pl(1,3) False by (simp add: last_map)
    qed
    then have "sorted_wrt (<) (map fst (pl @ [(d, 1)]))"
      using pl(2) by (simp add: sorted_wrt_append)
    then have "postings_inv d (dict_set t (pl @ [(d, 1)]) index)"
      by (intro postings_inv_dict_set [OF assms]) simp_all
    then show ?thesis
      using Some False by (simp add: spimi_token_def)
  qed
qed

lemma postings_inv_inner:
  "postings_inv d index \<Longrightarrow>
   postings_inv d (fst (spimi_inner testCount d tokens (index, p)))"
proof (induction tokens arbitrary: index p)
  case Nil
  then show ?case by simp
next
  case (Cons t tokens)
  have "postings_inv d (spimi_token t d index)"
    by (rule postings_inv_token [OF Cons.prems])
  then show ?case
    using Cons.IH by (simp add: Let_def)
qed

lemma postings_inv_outer:
  "postings_inv d index \<Longrightarrow>
   \<exists>e. postings_inv e (fst (spimi_outer testCount d tokensList (index, p)))"
proof (induction tokensList arbitrary: d index p)
  case Nil
  then show ?case by auto
next
  case (Cons tokens tokensList)
  obtain index' p' where inner: "spimi_inner testCount d tokens (index, p) = (index', p')"
    by (cases "spimi_inner testCount d tokens (index, p)")
  have inv: "postings_inv d index'"
    using postings_inv_inner [OF Cons.prems, of testCount tokens p] by (simp add: inner)
  then have inv': "postings_inv (d + 1) index'"
    by (rule postings_inv_mono [rotated]) simp
  show ?case
  proof (cases "spimi_stop testCount p'")
    case True
    then show ?thesis
      using inv by (auto simp: inner)
  next
    case False
    then show ?thesis
      using Cons.IH [OF inv', of p'] by (simp add: inner)
  qed
qed

lemma spimi_strictly_increasing:
  assumes "(term, pl) \<in> set (spimi tokensList testCount)"
  shows "sorted_wrt (<) (map fst pl)"
proof -
  have "postings_inv 1 []" by (simp add: postings_inv_def)
  then obtain e where "postings_inv e (spimi_build tokensList testCount)"
    unfolding spimi_build_def using postings_inv_outer by blast
  then show ?thesis
    using assms by (auto simp: spimi_def postings_inv_def list_all_iff)
qed

lemma naive_strictly_increasing:
  assumes "(term, pl) \<in> set (naive tokensList testCount)"
  shows "sorted_wrt (<) pl"
proof -
  let ?F = "fromkeys (sort (naive_pairs tokensList testCount))"
  have "map_of (naive tokensList testCount) term = Some pl"
    using assms distinct_keys_naive by (simp add: map_of_eq_Some_iff)
  then have pl: "pl = remdups_adj (docs_of term ?F)"
    by (simp add: naive_def map_of_naive_add_steps split: if_splits)
  have strict: "sorted_wrt (<) (docs_of term ?F)"
    by (rule strict_docs_of) (simp_all add: sorted_fromkeys distinct_fromkeys)
  then have "remdups_adj (docs_of term ?F) = docs_of term ?F"
    by (simp add: strict_sorted_iff remdups_adj_distinct)
  then show ?thesis
    using pl strict by simp
qed

section \<open>Term frequencies count the occurrences\<close>

lemma total_tf_dict_set:
  "total_tf (dict_set k v index) =
     total_tf index
       - (case map_of index k of None \<Rightarrow> 0 | Some old \<Rightarrow> sum_list (map snd old))
       + sum_list (map snd v)"
  by (induction index) (auto simp: total_tf_def)

lemma total_tf_spimi_token:
  assumes "map_of index t \<noteq> Some []"
  shows "total_tf (spimi_token t d index) = total_tf index + 1"
proof (cases "map_of index t")
  case None
  then show ?thesis
    by (simp add: spimi_token_def total_tf_dict_set)
next
  case (Some pl)
  then have "pl \<noteq> []" using assms by auto
  then show ?thesis
    using Some sum_butlast_last [of pl snd]
    by (simp add: spimi_token_def total_tf_dict_set)
qed

lemma nonempty_spimi_token:
  assumes "\<forall>t. map_of index t \<noteq> Some []"
  shows "\<forall>t'. map_of (spimi_token t d index) t' \<noteq> Some []"
  using assms map_of_spimi_token [of index t d] rle_add_nonempty
  by (simp add: fun_upd_def)

lemma total_tf_spimi_steps:
  "\<forall>t. map_of index t \<noteq> Some [] \<Longrightarrow>
   total_tf (spimi_steps ps index) = total_tf index + int (length ps)"
proof (induction ps arbitrary: index)
  case Nil
  show ?case by (simp add: spimi_steps_Nil)
next
  case (Cons p ps)
  obtain t d where p: "p = (t, d)" by (cases p)
  have "total_tf (spimi_steps ps (spimi_token t d index)) =
      total_tf (spimi_token t d index) + int (length ps)"
    by (rule Cons.IH) (rule nonempty_spimi_token [OF Cons.prems])
  then show ?case
    using Cons.prems by (simp add: p spimi_steps_Cons total_tf_spimi_token)
qed

lemma sum_list_insort_key:
  "sum_list (map f (insort_key g x xs)) = f x + (sum_list (map f xs) :: int)"
  by (induction xs) auto

lemma sum_list_sort_key:
  "sum_list (map f (sort_key g xs)) = (sum_list (map f xs) :: int)"
  by (induction xs) (auto simp: sum_list_insort_key)

lemma total_tf_spimi:
  assumes "budget_ok testCount"
  shows "total_tf (spimi tokensList testCount) =
           int (length (budget_take testCount (pairs_from 1 tokensList)))"
proof -
  have "total_tf (spimi tokensList testCount) = total_tf (spimi_build tokensList testCount)"
    by (simp add: spimi_def total_tf_def sum_list_sort_key)
  also have "\<dots> = total_tf [] + int (length (budget_take testCount (pairs_from 1 tokensList)))"
    unfolding spimi_build_stream [OF assms] by (rule total_tf_spimi_steps) simp
  finally show ?thesis
    by (simp add: total_tf_def)
qed

section \<open>The two-pointer intersection\<close>

lemma strict_drop_head:
  fixes xs :: "int list"
  assumes "sorted_wrt (<) xs" and "i < length xs"
  shows "drop i xs = xs ! i # drop (Suc i) xs"
    and "\<forall>b \<in> set (drop (Suc i) xs). xs ! i < b"
proof -
  show eq: "drop i xs = xs ! i # drop (Suc i) xs"
    using assms(2) by (simp add: Cons_nth_drop_Suc)
  have "sorted_wrt (<) (drop i xs)"
    using assms(1) by simp
  then show "\<forall>b \<in> set (drop (Suc i) xs). xs ! i < b"
    unfolding eq by simp
qed

lemma set_intersect_loop:
  "sorted_wrt (<) pList1 \<Longrightarrow> sorted_wrt (<) pList2 \<Longrightarrow>
   set (intersect_loop pList1 pList2 i j result) =
     set result \<union> (set (drop i pList1) \<inter> set (drop j pList2))"
proof (induction pList1 pList2 i j result rule: intersect_loop.induct)
  case (1 pList1 pList2 i j result)
  show ?case
  proof (cases "i < length pList1 \<and> j < length pList2")
    case False
    then show ?thesis
      by (subst intersect_loop.simps) auto
  next
    case True
    note d1 = strict_drop_head [OF "1.prems"(1), of i]
    note d2 = strict_drop_head [OF "1.prems"(2), of j]
    have e1: "drop i pList1 = pList1 ! i # drop (Suc i) pList1"
      and g1: "\<forall>b \<in> set (drop (Suc i) pList1). pList1 ! i < b"
      using d1 True by simp_all
    have e2: "drop j pList2 = pList2 ! j # drop (Suc j) pList2"
      and g2: "\<forall>b \<in> set (drop (Suc j) pList2). pList2 ! j < b"
      using d2 True by simp_all
    consider (eq) "pList1 ! i = pList2 ! j" | (lt) "pList1 ! i < pList2 ! j"
      | (gt) "pList2 ! j < pList1 ! i"
      by linarith
    then show ?thesis
    proof cases
      case eq
      have "set (intersect_loop pList1 pList2 i j result) =
          set (result @ [pList1 ! i]) \<union>
          (set (drop (i + 1) pList1) \<inter> set (drop (j + 1) pList2))"
        using True eq "1.IH"(1) "1.prems" by (subst intersect_loop.simps) simp
      also have "\<dots> = set result \<union> (set (drop i pList1) \<inter> set (drop j pList2))"
        unfolding e1 e2 using eq by auto
      finally show ?thesis .
    next
      case lt
      have "set (intersect_loop pList1 pList2 i j result) =
          set result \<union> (set (drop (i + 1) pList1) \<inter> set (drop j pList2))"
        using True lt "1.IH"(2) "1.prems" by (subst intersect_loop.simps) simp
      also have "\<dots> = set result \<union> (set (drop i pList1) \<inter> set (drop j pList2))"
        unfolding e1 using lt g2 by (subst (2) e2, subst e2) auto
      finally show ?thesis .
    next
      case gt
      have "set (intersect_loop pList1 pList2 i j result) =
          set result \<union> (set (drop i pList1) \<inter> set (drop (j + 1) pList2))"
        using True gt "1.IH"(3) "1.prems" by (subst intersect_loop.simps) simp
      also have "\<dots> = set result \<union> (set (drop i pList1) \<inter> set (drop j pList2))"
        unfolding e2 using gt g1 by (subst (2) e1, subst e1) auto
      finally show ?thesis .
    qed
  qed
qed

lemma sorted_intersect_loop:
  "sorted_wrt (<) pList1 \<Longrightarrow> sorted_wrt (<) pList2 \<Longrightarrow> sorted_wrt (<) result \<Longrightarrow>
   \<forall>a \<in> set result. \<forall>b \<in> set (drop i pList1). a < b \<Longrightarrow>
   sorted_wrt (<) (intersect_loop pList1 pList2 i j result)"
proof (induction pList1 pList2 i j result rule: intersect_loop.induct)
  case (1 pList1 pList2 i j result)
  show ?case
  proof (cases "i < length pList1 \<and> j < length pList2")
    case False
    then show ?thesis
      using "1.prems"(3) by (subst intersect_loop.simps) auto
  next
    case True
    have e1: "drop i pList1 = pList1 ! i # drop (Suc i) pList1"
      and g1: "\<forall>b \<in> set (drop (Suc i) pList1). pList1 ! i < b"
      using strict_drop_head [OF "1.prems"(1), of i] True by simp_all
    have below: "\<forall>a \<in> set result. a < pList1 ! i"
      and rest: "\<forall>a \<in> set result. \<forall>b \<in> set (drop (Suc i) pList1). a < b"
      using "1.prems"(4) unfolding e1 by simp_all
    consider (eq) "pList1 ! i = pList2 ! j"
      | (lt) "pList1 ! i \<noteq> pList2 ! j" "pList1 ! i < pList2 ! j"
      | (gt) "pList1 ! i \<noteq> pList2 ! j" "\<not> pList1 ! i < pList2 ! j"
      by blast
    then show ?thesis
    proof cases
      case eq
      have s: "sorted_wrt (<) (result @ [pList1 ! i])"
        using "1.prems"(3) below by (simp add: sorted_wrt_append)
      have b: "\<forall>a \<in> set (result @ [pList1 ! i]). \<forall>b \<in> set (drop (i + 1) pList1). a < b"
        using rest g1 by auto
      have "sorted_wrt (<) (intersect_loop pList1 pList2 (i + 1) (j + 1) (result @ [pList1 ! i]))"
        by (rule "1.IH"(1) [OF True eq "1.prems"(1,2) s b])
      then show ?thesis
        using True eq by (subst intersect_loop.simps) simp
    next
      case lt
      have b: "\<forall>a \<in> set result. \<forall>b \<in> set (drop (i + 1) pList1). a < b"
        using rest by simp
      have "sorted_wrt (<) (intersect_loop pList1 pList2 (i + 1) j result)"
        by (rule "1.IH"(2) [OF True lt "1.prems"(1,2,3) b])
      then show ?thesis
        using True lt by (subst intersect_loop.simps) simp
    next
      case gt
      have "sorted_wrt (<) (intersect_loop pList1 pList2 i (j + 1) result)"
        by (rule "1.IH"(3) [OF True gt "1.prems"])
      then show ?thesis
        using True gt by (subst intersect_loop.simps) simp
    qed
  qed
qed

lemma set_intersect:
  "sorted_wrt (<) pList1 \<Longrightarrow> sorted_wrt (<) pList2 \<Longrightarrow>
   set (intersect pList1 pList2) = set pList1 \<inter> set pList2"
  by (simp add: intersect_def set_intersect_loop)

lemma sorted_intersect:
  "sorted_wrt (<) pList1 \<Longrightarrow> sorted_wrt (<) pList2 \<Longrightarrow>
   sorted_wrt (<) (intersect pList1 pList2)"
  by (simp add: intersect_def sorted_intersect_loop)

lemma conjunction_loop_correct:
  "sorted_wrt (<) final \<Longrightarrow> \<forall>pl \<in> set rest. sorted_wrt (<) pl \<Longrightarrow>
   sorted_wrt (<) (conjunction_loop final rest) \<and>
   set (conjunction_loop final rest) = set final \<inter> (\<Inter>pl \<in> set rest. set pl)"
proof (induction rest arbitrary: final)
  case Nil
  then show ?case by simp
next
  case (Cons pl rest)
  have s: "sorted_wrt (<) (intersect final pl)"
    using Cons.prems by (simp add: sorted_intersect)
  have e: "set (intersect final pl) = set final \<inter> set pl"
    using Cons.prems by (simp add: set_intersect)
  show ?case
  proof (cases "intersect final pl = []")
    case True
    then have "set final \<inter> set pl = {}" using e by simp
    then have "set final \<inter> (\<Inter>pl \<in> set (pl # rest). set pl) = {}" by auto
    then show ?thesis
      using True by (simp add: Let_def)
  next
    case False
    have "sorted_wrt (<) (conjunction_loop (intersect final pl) rest) \<and>
        set (conjunction_loop (intersect final pl) rest) =
          set (intersect final pl) \<inter> (\<Inter>pl \<in> set rest. set pl)"
      using Cons.prems by (intro Cons.IH [OF s]) simp
    then show ?thesis
      using False e by (auto simp: Let_def)
  qed
qed

section \<open>Union and match counts\<close>

lemma valid_lists_mem:
  "pl \<in> set (map the (filter (\<lambda>plist. plist \<noteq> None) postingsLists)) \<longleftrightarrow>
   Some pl \<in> set postingsLists"
  by (induction postingsLists) auto

lemma valid_lists_Nil:
  "map the (filter (\<lambda>plist. plist \<noteq> None) postingsLists) = [] \<longleftrightarrow>
   (\<forall>p \<in> set postingsLists. p = None)"
  by (induction postingsLists) auto

lemma sum_snd_dict_set:
  "sum_list (map snd (dict_set k v d)) =
     sum_list (map snd d) - (case map_of d k of None \<Rightarrow> 0 | Some c \<Rightarrow> c) + (v :: int)"
  by (induction d) auto

lemma sum_snd_count_fold:
  "sum_list (map snd
     (fold (\<lambda>docID docFreq.
              dict_set docID ((case map_of docFreq docID of None \<Rightarrow> 0 | Some c \<Rightarrow> c) + 1) docFreq)
           xs d)) =
   sum_list (map snd d) + int (length xs)"
  by (induction xs arbitrary: d) (simp_all add: sum_snd_dict_set)

lemma sum_list_sorted_reverse:
  "sum_list (map f (sorted_reverse key xs)) = (sum_list (map f xs) :: int)"
  by (simp add: sorted_reverse_def rev_map [symmetric] sum_list_sort_key)

lemma sum_snd_queryTermRank:
  "sum_list (map snd (queryTermRank postingsList)) = int (length postingsList)"
  by (simp add: queryTermRank_def Let_def sum_list_sorted_reverse sum_snd_count_fold)

lemma valid_lists_length:
  "sum_list (map length (map the (filter (\<lambda>plist. plist \<noteq> None) postingsLists))) =
   sum_list (map (\<lambda>p. case p of None \<Rightarrow> 0 | Some pl \<Rightarrow> length pl) postingsLists)"
  by (induction postingsLists) auto

section \<open>BM25: the document-length lookup and the exceptions\<close>

lemma py_getitem_at_length: "py_getitem xs (int (length xs)) = Inl IndexError"
  by (simp add: py_getitem_def)

lemma py_getitem_next:
  "1 \<le> d \<Longrightarrow> d < int (length collection) \<Longrightarrow>
   py_getitem collection d = Inr (doc_by_id collection (d + 1))"
  by (simp add: py_getitem_def doc_by_id_def)

lemma pairs_from_doc:
  "(t, e) \<in> set (pairs_from d tokensList) \<longleftrightarrow>
   d \<le> e \<and> e < d + int (length tokensList) \<and> t \<in> set (tokensList ! nat (e - d))"
proof (induction tokensList arbitrary: d)
  case Nil
  show ?case by auto
next
  case (Cons tokens tokensList)
  show ?case
  proof (cases "e = d")
    case True
    have "(t, d) \<notin> set (pairs_from (d + 1) tokensList)"
      using pairs_from_ge [of t d "d + 1" tokensList] by auto
    then show ?thesis
      using True by auto
  next
    case False
    have idx: "nat (e - d) = Suc (nat (e - (d + 1)))" if "d \<le> e"
      using that False by linarith
    have "(t, e) \<in> set (pairs_from d (tokens # tokensList)) \<longleftrightarrow>
        (t, e) \<in> set (pairs_from (d + 1) tokensList)"
      using False by auto
    also have "\<dots> \<longleftrightarrow> d + 1 \<le> e \<and> e < d + 1 + int (length tokensList) \<and>
        t \<in> set (tokensList ! nat (e - (d + 1)))"
      by (rule Cons.IH)
    also have "\<dots> \<longleftrightarrow> d \<le> e \<and> e < d + int (length (tokens # tokensList)) \<and>
        t \<in> set ((tokens # tokensList) ! nat (e - d))"
      using False idx by auto
    finally show ?thesis .
  qed
qed

lemma pairs_from_doc_by_id:
  "(t, e) \<in> set (pairs_from 1 tokensList) \<longleftrightarrow>
   1 \<le> e \<and> e \<le> int (length tokensList) \<and> t \<in> set (doc_by_id tokensList e)"
  by (auto simp: pairs_from_doc doc_by_id_def)

lemma bm25_score_defined:
  assumes "0 \<le> k1" "0 \<le> b" "b \<le> 1" "0 < L_avg" "1 \<le> tf"
  shows "\<exists>s. bm25_score k1 b L_avg idf tf L_d = Inr s"
proof -
  have "0 \<le> b * (real L_d / L_avg)"
    using assms by simp
  then have "0 \<le> k1 * ((1 - b) + b * (real L_d / L_avg))"
    using assms by simp
  then have "0 < k1 * ((1 - b) + b * (real L_d / L_avg)) + real_of_int tf"
    using assms(5) by linarith
  then show ?thesis
    using assms(4) by (simp add: bm25_score_def Let_def)
qed

lemma bm25_posting_error:
  assumes "0 \<le> k1" "0 \<le> b" "b \<le> 1" "0 < L_avg" "1 \<le> snd p"
    and "bm25_posting collection result k1 b L_avg idf p rankedResults = Inl e"
  shows "e = IndexError"
proof -
  obtain docID tf where p: "p = (docID, tf)" by (cases p)
  obtain s where s: "\<And>L_d. \<exists>s. bm25_score k1 b L_avg idf tf L_d = Inr s"
    using bm25_score_defined [OF assms(1-4), of tf idf] assms(5) p by auto
  show ?thesis
  proof (cases "py_getitem collection docID")
    case (Inl e')
    then have "e' = IndexError"
      by (auto simp: py_getitem_def split: if_splits)
    then show ?thesis
      using assms(6) Inl by (auto simp: bm25_posting_def p split: if_splits)
  next
    case (Inr doc)
    obtain sc where "bm25_score k1 b L_avg idf tf (length doc) = Inr sc"
      using s by blast
    then show ?thesis
      using assms(6) Inr by (auto simp: bm25_posting_def p split: if_splits)
  qed
qed

lemma bm25_posting_at_length:
  assumes "collection \<noteq> []" "int (length collection) \<in> set result"
  shows "bm25_posting collection result k1 b L_avg idf (int (length collection), tf) rankedResults
           = Inl IndexError"
  using assms by (simp add: bm25_posting_def py_getitem_at_length)

lemma bm25_postings_error:
  assumes "0 \<le> k1" "0 \<le> b" "b \<le> 1" "0 < L_avg"
  shows "\<forall>p \<in> set postingsList. 1 \<le> snd p \<Longrightarrow>
         bm25_postings collection result k1 b L_avg idf postingsList rankedResults = Inl e \<Longrightarrow>
         e = IndexError"
proof (induction postingsList arbitrary: rankedResults)
  case Nil
  then show ?case by simp
next
  case (Cons p postingsList)
  show ?case
  proof (cases "bm25_posting collection result k1 b L_avg idf p rankedResults")
    case (Inl e')
    then have "e' = IndexError"
      using bm25_posting_error [OF assms, of p] Cons.prems(1) by simp
    then show ?thesis
      using Cons.prems(2) Inl by simp
  next
    case (Inr rr)
    then show ?thesis
      using Cons.IH [of rr] Cons.prems by simp
  qed
qed

lemma bm25_postings_at_length:
  assumes "0 \<le> k1" "0 \<le> b" "b \<le> 1" "0 < L_avg"
    and "collection \<noteq> []" "int (length collection) \<in> set result"
  shows "\<forall>p \<in> set postingsList. 1 \<le> snd p \<Longrightarrow>
         (int (length collection), tf) \<in> set postingsList \<Longrightarrow>
         bm25_postings collection result k1 b L_avg idf postingsList rankedResults
           = Inl IndexError"
proof (induction postingsList arbitrary: rankedResults)
  case Nil
  then show ?case by simp
next
  case (Cons p postingsList)
  show ?case
  proof (cases "bm25_posting collection result k1 b L_avg idf p rankedResults")
    case (Inl e')
    then have "e' = IndexError"
      using bm25_posting_error [OF assms(1-4), of p] Cons.prems(1) by simp
    then show ?thesis
      using Inl by simp
  next
    case (Inr rr)
    then have "p \<noteq> (int (length collection), tf)"
      using bm25_posting_at_length [OF assms(5,6)] by auto
    then have "(int (length collection), tf) \<in> set postingsList"
      using Cons.prems(2) by auto
    then show ?thesis
      using Cons.IH [of rr] Cons.prems(1) Inr by simp
  qed
qed

lemma bm25_idf_defined:
  assumes "0 < N"
  shows "\<exists>idf. bm25_idf N df = Inr idf"
proof (cases "df = 0")
  case True
  then show ?thesis by (simp add: bm25_idf_def)
next
  case False
  then have "0 < real N / real df"
    using assms by simp
  then show ?thesis
    using False by (simp add: bm25_idf_def py_log_def)
qed

lemma bm25_terms_error:
  assumes "0 \<le> k1" "0 \<le> b" "b \<le> 1" "0 < L_avg" "collection \<noteq> []"
    and "\<forall>t pl. map_of index t = Some pl \<longrightarrow> (\<forall>p \<in> set pl. 1 \<le> snd p)"
  shows "bm25_terms collection result index k1 b L_avg queryTerms rankedResults = Inl e \<Longrightarrow>
         e = IndexError"
proof (induction queryTerms arbitrary: rankedResults)
  case Nil
  then show ?case by simp
next
  case (Cons t queryTerms)
  define pl where "pl = (case map_of index t of None \<Rightarrow> [] | Some pl \<Rightarrow> pl)"
  have tf: "\<forall>p \<in> set pl. 1 \<le> snd p"
    using assms(6) by (cases "map_of index t") (fastforce simp: pl_def)+
  obtain idf where idf: "bm25_idf (length collection) (length pl) = Inr idf"
    using bm25_idf_defined [of "length collection" "length pl"] assms(5) by auto
  show ?case
  proof (cases "bm25_postings collection result k1 b L_avg idf pl rankedResults")
    case (Inl e')
    then have "e' = IndexError"
      using bm25_postings_error [OF assms(1-4) tf] by blast
    then show ?thesis
      using Cons.prems Inl idf by (simp add: pl_def [symmetric] Let_def)
  next
    case (Inr rr)
    then show ?thesis
      using Cons.IH [of rr] Cons.prems idf by (simp add: pl_def [symmetric] Let_def)
  qed
qed

lemma bm25_terms_at_length:
  assumes "0 \<le> k1" "0 \<le> b" "b \<le> 1" "0 < L_avg" "collection \<noteq> []"
    and "\<forall>t pl. map_of index t = Some pl \<longrightarrow> (\<forall>p \<in> set pl. 1 \<le> snd p)"
    and "map_of index term = Some postingsList"
    and "(int (length collection), tf) \<in> set postingsList"
    and "int (length collection) \<in> set result"
  shows "term \<in> set queryTerms \<Longrightarrow>
         bm25_terms collection result index k1 b L_avg queryTerms rankedResults = Inl IndexError"
proof (induction queryTerms arbitrary: rankedResults)
  case Nil
  then show ?case by simp
next
  case (Cons t queryTerms)
  define pl where "pl = (case map_of index t of None \<Rightarrow> [] | Some pl \<Rightarrow> pl)"
  have tf: "\<forall>p \<in> set pl. 1 \<le> snd p"
    using assms(6) by (cases "map_of index t") (fastforce simp: pl_def)+
  obtain idf where idf: "bm25_idf (length collection) (length pl) = Inr idf"
    using bm25_idf_defined [of "length collection" "length pl"] assms(5) by auto
  show ?case
  proof (cases "bm25_postings collection result k1 b L_avg idf pl rankedResults")
    case (Inl e')
    then have "e' = IndexError"
      using bm25_postings_error [OF assms(1-4) tf] by blast
    then show ?thesis
      using Inl idf by (simp add: pl_def [symmetric] Let_def)
  next
    case (Inr rr)
    have "t \<noteq> term"
    proof
      assume "t = term"
      then have "pl = postingsList"
        using assms(7) by (simp add: pl_def)
      then have "bm25_postings collection result k1 b L_avg idf pl rankedResults = Inl IndexError"
        using bm25_postings_at_length [OF assms(1-5) assms(9) tf] assms(8) by blast
      then show False
        using Inr by simp
    qed
    then have "term \<in> set queryTerms"
      using Cons.prems by auto
    then show ?thesis
      using Cons.IH [of rr] Inr idf by (simp add: pl_def [symmetric] Let_def)
  qed
qed

lemma bm25_posting_next:
  assumes "1 \<le> d" "d < int (length collection)" "d \<in> set result"
  shows "bm25_posting collection result k1 b L_avg idf (d, tf) rankedResults =
     (case bm25_score k1 b L_avg idf tf (length (doc_by_id collection (d + 1))) of
        Inl e \<Rightarrow> Inl e
      | Inr score \<Rightarrow>
          Inr (dict_set d ((case map_of rankedResults d of None \<Rightarrow> 0 | Some s \<Rightarrow> s) + score)
                 rankedResults))"
  using assms by (simp add: bm25_posting_def py_getitem_next)

section \<open>BM25: the ranking step\<close>





section \<open>What an unbudgeted build stores\<close>

lemma keys_pairs_from: "fst ` set (pairs_from d tokensList) = set (concat tokensList)"
  by (induction tokensList arbitrary: d) (auto simp: image_Un image_image)

lemma docs_of_pairs_from:
  "set (docs_of term (pairs_from 1 tokensList)) =
     {d. 1 \<le> d \<and> d \<le> int (length tokensList) \<and> term \<in> set (doc_by_id tokensList d)}"
  by (simp only: set_docs_of pairs_from_doc_by_id)

lemma keys_of_lookup:
  assumes "\<And>term. map_of index term = (if docs_of term ps = [] then None else Some (f term))"
  shows "fst ` set index = fst ` set ps"
proof -
  have "dom (map_of index) = {term. docs_of term ps \<noteq> []}"
    by (auto simp: assms dom_def)
  also have "\<dots> = fst ` set ps"
    by (simp add: docs_of_Nil_iff)
  finally show ?thesis
    by (simp add: dom_map_of_conv_image_fst)
qed

lemma naive_unlimited_content:
  assumes "testCount = None \<or> testCount = Some 0"
  shows "fst ` set (naive tokensList testCount) = set (concat tokensList)"
    and "(case map_of (naive tokensList testCount) term of None \<Rightarrow> {} | Some pl \<Rightarrow> set pl) =
           {d. 1 \<le> d \<and> d \<le> int (length tokensList) \<and> term \<in> set (doc_by_id tokensList d)}"
proof -
  have ok: "budget_ok testCount"
    using assms by (auto simp: budget_ok_def)
  have take: "budget_take testCount (pairs_from 1 tokensList) = pairs_from 1 tokensList"
    using assms by (auto simp: budget_take_def)
  have look: "map_of (naive tokensList testCount) term =
      (if docs_of term (pairs_from 1 tokensList) = [] then None
       else Some (remdups_adj (docs_of term (pairs_from 1 tokensList))))" for "term"
    by (simp add: map_of_naive [OF ok] take Let_def)
  show "fst ` set (naive tokensList testCount) = set (concat tokensList)"
    using keys_of_lookup [of "naive tokensList testCount" "pairs_from 1 tokensList"
        "\<lambda>term. remdups_adj (docs_of term (pairs_from 1 tokensList))"] look
    by (simp add: keys_pairs_from)
  have "(case map_of (naive tokensList testCount) term of None \<Rightarrow> {} | Some pl \<Rightarrow> set pl) =
      set (docs_of term (pairs_from 1 tokensList))"
    by (simp add: look)
  then show "(case map_of (naive tokensList testCount) term of None \<Rightarrow> {} | Some pl \<Rightarrow> set pl) =
           {d. 1 \<le> d \<and> d \<le> int (length tokensList) \<and> term \<in> set (doc_by_id tokensList d)}"
    by (simp only: docs_of_pairs_from)
qed

lemma spimi_unlimited_content:
  assumes "testCount = None \<or> testCount = Some 0"
  shows "fst ` set (spimi tokensList testCount) = set (concat tokensList)"
    and "(case map_of (spimi tokensList testCount) term of
            None \<Rightarrow> {} | Some pl \<Rightarrow> fst ` set pl) =
           {d. 1 \<le> d \<and> d \<le> int (length tokensList) \<and> term \<in> set (doc_by_id tokensList d)}"
proof -
  have ok: "budget_ok testCount"
    using assms by (auto simp: budget_ok_def)
  have take: "budget_take testCount (pairs_from 1 tokensList) = pairs_from 1 tokensList"
    using assms by (auto simp: budget_take_def)
  have look: "map_of (spimi tokensList testCount) term =
      (if docs_of term (pairs_from 1 tokensList) = [] then None
       else Some (fold rle_add (docs_of term (pairs_from 1 tokensList)) []))" for "term"
    by (simp add: map_of_spimi [OF ok] take Let_def)
  show "fst ` set (spimi tokensList testCount) = set (concat tokensList)"
    using keys_of_lookup [of "spimi tokensList testCount" "pairs_from 1 tokensList"
        "\<lambda>term. fold rle_add (docs_of term (pairs_from 1 tokensList)) []"] look
    by (simp add: keys_pairs_from)
  have "fst ` set (fold rle_add xs []) = set xs" for xs
    using map_fst_rle [of xs] by (metis list.set_map remdups_adj_set)
  then have "(case map_of (spimi tokensList testCount) term of
            None \<Rightarrow> {} | Some pl \<Rightarrow> fst ` set pl) =
      set (docs_of term (pairs_from 1 tokensList))"
    by (simp add: look)
  then show "(case map_of (spimi tokensList testCount) term of
            None \<Rightarrow> {} | Some pl \<Rightarrow> fst ` set pl) =
           {d. 1 \<le> d \<and> d \<le> int (length tokensList) \<and> term \<in> set (doc_by_id tokensList d)}"
    by (simp only: docs_of_pairs_from)
qed

section \<open>The claims\<close>

text \<open>
  Claim C1.  For every token corpus and every occurrence budget (absent, or a number
  of occurrences, hence not negative) given to both builders, the index built by
  \<open>spimi\<close> and the index built by \<open>naive\<close> have the same set of keys, and for every
  term the DocumentID list of the \<open>naive\<close> index is the list of DocumentIDs of the
  postings of the \<open>spimi\<close> index for that term, the term frequencies dropped.
  (Each index has every key once, so that the lookup \<open>map_of\<close> reads the one
  postings list of a term.)
\<close>

theorem spimi_naive_same_documents:
  assumes "budget_ok testCount"
  shows "fst ` set (spimi tokensList testCount) = fst ` set (naive tokensList testCount) \<and>
         (\<forall>term. map_of (naive tokensList testCount) term =
                 map_option (map fst) (map_of (spimi tokensList testCount) term)) \<and>
         distinct (map fst (spimi tokensList testCount)) \<and>
         distinct (map fst (naive tokensList testCount))"
proof -
  have per_term: "map_of (naive tokensList testCount) term =
      map_option (map fst) (map_of (spimi tokensList testCount) term)" for "term"
    by (simp add: map_of_spimi [OF assms] map_of_naive [OF assms] Let_def map_fst_rle)
  have "dom (map_of (naive tokensList testCount)) = dom (map_of (spimi tokensList testCount))"
    by (auto simp: per_term dom_def)
  then have "fst ` set (spimi tokensList testCount) = fst ` set (naive tokensList testCount)"
    by (simp add: dom_map_of_conv_image_fst)
  then show ?thesis
    using per_term distinct_keys_spimi [OF assms] distinct_keys_naive by blast
qed

theorem spimi_naive_same_documents_witness:
  "budget_ok (Some 4) \<and>
   fst ` set (spimi [[''the'', ''cat'', ''sat''], [''the'', ''dog'', ''sat''],
                     [''cat'', ''and'', ''dog'']] (Some 4)) = {''cat'', ''sat'', ''the''} \<and>
   fst ` set (naive [[''the'', ''cat'', ''sat''], [''the'', ''dog'', ''sat''],
                     [''cat'', ''and'', ''dog'']] (Some 4)) = {''cat'', ''sat'', ''the''} \<and>
   map_of (spimi [[''the'', ''cat'', ''sat''], [''the'', ''dog'', ''sat''],
                  [''cat'', ''and'', ''dog'']] (Some 4)) ''the'' = Some [(1, 1), (2, 1)] \<and>
   map_of (naive [[''the'', ''cat'', ''sat''], [''the'', ''dog'', ''sat''],
                  [''cat'', ''and'', ''dog'']] (Some 4)) ''the'' = Some [1, 2]"
proof -
  let ?c = "[[''the'', ''cat'', ''sat''], [''the'', ''dog'', ''sat''], [''cat'', ''and'', ''dog'']]"
  have ok: "budget_ok (Some 4)"
    by (simp add: budget_ok_def)
  have sp: "spimi ?c (Some 4) =
      [(''cat'', [(1, 1)]), (''sat'', [(1, 1)]), (''the'', [(1, 1), (2, 1)])]"
    by code_simp
  note inst = spimi_naive_same_documents [OF ok, of ?c]
  have keys: "fst ` set (naive ?c (Some 4)) = {''cat'', ''sat'', ''the''}"
    using inst by (simp add: sp)
  have look: "map_of (naive ?c (Some 4)) ''the'' = Some [1, 2]"
    using inst by (simp add: sp)
  show ?thesis
    using ok keys look by (simp add: sp)
qed

text \<open>
  Claim C2.  For every token corpus and every occurrence budget, absent or any
  integer, every postings list of the index returned by \<open>spimi\<close> and every postings
  list of the index returned by \<open>naive\<close> is strictly increasing by DocumentID, so
  without a repeated DocumentID.
\<close>

theorem postings_strictly_increasing:
  "(\<forall>(term, pl) \<in> set (spimi tokensList testCount). sorted_wrt (<) (map fst pl)) \<and>
   (\<forall>(term, pl) \<in> set (naive tokensList testCount). sorted_wrt (<) pl)"
  using spimi_strictly_increasing naive_strictly_increasing by blast

theorem postings_strictly_increasing_witness:
  "(''cat'', [(1, 1), (3, 2)]) \<in>
     set (spimi [[''the'', ''cat''], [''the'', ''dog''], [''cat'', ''and'', ''cat'']] None) \<and>
   sorted_wrt (<) (map fst [(1, 1), (3, 2 :: int)] :: int list) \<and>
   (''cat'', [1, 3]) \<in>
     set (naive [[''the'', ''cat''], [''the'', ''dog''], [''cat'', ''and'', ''cat'']] None) \<and>
   sorted_wrt (<) [1, 3 :: int]"
proof -
  let ?c = "[[''the'', ''cat''], [''the'', ''dog''], [''cat'', ''and'', ''cat'']]"
  have s: "(''cat'', [(1, 1), (3, 2)]) \<in> set (spimi ?c None)"
    by code_simp
  have n: "(''cat'', [1, 3]) \<in> set (naive ?c None)"
    by code_simp
  show ?thesis
    using postings_strictly_increasing [of ?c None] s n by blast
qed

text \<open>
  Claim C6.  For every occurrence budget \<open>N \<ge> 1\<close> and every corpus with at least
  \<open>N\<close> token occurrences, the term frequencies of the index built by \<open>spimi\<close> with
  that budget sum to exactly \<open>N\<close>, and the list of (term, DocumentID) pairs that
  \<open>naive\<close> has accumulated before it sorts and deduplicates has exactly \<open>N\<close> elements.
\<close>

theorem budget_consumed_exactly:
  assumes "1 \<le> N" and "N \<le> int (sum_list (map length tokensList))"
  shows "total_tf (spimi tokensList (Some N)) = N \<and>
         int (length (naive_pairs tokensList (Some N))) = N"
proof -
  have ok: "budget_ok (Some N)"
    using assms(1) by (simp add: budget_ok_def)
  have len: "int (length (budget_take (Some N) (pairs_from 1 tokensList))) = N"
  proof -
    have "min (sum_list (map length tokensList)) (nat N) = nat N"
      using assms by linarith
    then show ?thesis
      using assms by (simp add: budget_take_def length_pairs_from)
  qed
  show ?thesis
    using len by (simp add: total_tf_spimi [OF ok] naive_pairs_stream [OF ok])
qed

theorem budget_consumed_exactly_witness:
  "(1::int) \<le> 4 \<and>
   (4::int) \<le> int (sum_list (map length
      [[''the'', ''cat'', ''the''], [''the'', ''dog''], [''cat'', ''and'', ''cat'']])) \<and>
   spimi [[''the'', ''cat'', ''the''], [''the'', ''dog''], [''cat'', ''and'', ''cat'']] (Some 4) =
     [(''cat'', [(1, 1)]), (''the'', [(1, 2), (2, 1)])] \<and>
   total_tf (spimi [[''the'', ''cat'', ''the''], [''the'', ''dog''],
                    [''cat'', ''and'', ''cat'']] (Some 4)) = 4 \<and>
   int (length (naive_pairs [[''the'', ''cat'', ''the''], [''the'', ''dog''],
                             [''cat'', ''and'', ''cat'']] (Some 4))) = 4"
proof -
  let ?c = "[[''the'', ''cat'', ''the''], [''the'', ''dog''], [''cat'', ''and'', ''cat'']]"
  have h: "(4::int) \<le> int (sum_list (map length ?c))"
    by simp
  have sp: "spimi ?c (Some 4) = [(''cat'', [(1, 1)]), (''the'', [(1, 2), (2, 1)])]"
    by code_simp
  show ?thesis
    using budget_consumed_exactly [of 4 ?c] h sp by simp
qed

text \<open>
  Claim C10.  With the occurrence budget \<open>0\<close>, as with no budget, nothing is
  truncated: \<open>spimi\<close> and \<open>naive\<close> return the index of the unbudgeted build, which
  is built from every token occurrence of the corpus, not the empty index.  The
  keys of either index are exactly the tokens of the corpus, and either index
  lists for a term exactly the DocumentIDs of the documents that contain it; the
  term frequencies of the \<open>spimi\<close> index sum to the number of tokens.
\<close>

theorem zero_budget_is_unlimited:
  "spimi tokensList (Some 0) = spimi tokensList None \<and>
   naive tokensList (Some 0) = naive tokensList None \<and>
   spimi tokensList None = sort_key fst (spimi_steps (pairs_from 1 tokensList) []) \<and>
   naive_pairs tokensList (Some 0) = pairs_from 1 tokensList \<and>
   naive_pairs tokensList None = pairs_from 1 tokensList \<and>
   total_tf (spimi tokensList (Some 0)) = int (sum_list (map length tokensList)) \<and>
   fst ` set (spimi tokensList (Some 0)) = set (concat tokensList) \<and>
   fst ` set (naive tokensList (Some 0)) = set (concat tokensList) \<and>
   (\<forall>term. (case map_of (spimi tokensList (Some 0)) term of
               None \<Rightarrow> {} | Some pl \<Rightarrow> fst ` set pl) =
            {d. 1 \<le> d \<and> d \<le> int (length tokensList) \<and>
                term \<in> set (doc_by_id tokensList d)}) \<and>
   (\<forall>term. (case map_of (naive tokensList (Some 0)) term of
               None \<Rightarrow> {} | Some pl \<Rightarrow> set pl) =
            {d. 1 \<le> d \<and> d \<le> int (length tokensList) \<and>
                term \<in> set (doc_by_id tokensList d)})"
proof -
  have ok: "budget_ok (Some 0)" "budget_ok None"
    by (simp_all add: budget_ok_def)
  have take: "budget_take (Some 0) (pairs_from 1 tokensList) = pairs_from 1 tokensList"
    "budget_take None (pairs_from 1 tokensList) = pairs_from 1 tokensList"
    by (simp_all add: budget_take_def)
  have s0: "spimi_build tokensList (Some 0) = spimi_steps (pairs_from 1 tokensList) []"
    by (simp add: spimi_build_stream [OF ok(1)] take)
  have sN: "spimi_build tokensList None = spimi_steps (pairs_from 1 tokensList) []"
    by (simp add: spimi_build_stream [OF ok(2)] take)
  have n0: "naive_pairs tokensList (Some 0) = pairs_from 1 tokensList"
    by (simp add: naive_pairs_stream [OF ok(1)] take)
  have nN: "naive_pairs tokensList None = pairs_from 1 tokensList"
    by (simp add: naive_pairs_stream [OF ok(2)] take)
  have tf: "total_tf (spimi tokensList (Some 0)) = int (sum_list (map length tokensList))"
    by (simp add: total_tf_spimi [OF ok(1)] take length_pairs_from)
  have same: "spimi tokensList (Some 0) = spimi tokensList None"
    "naive tokensList (Some 0) = naive tokensList None"
    "spimi tokensList None = sort_key fst (spimi_steps (pairs_from 1 tokensList) [])"
    by (simp_all add: spimi_def naive_def s0 sN n0 nN)
  have z: "Some (0::int) = None \<or> Some (0::int) = Some 0"
    by simp
  note sc = spimi_unlimited_content [OF z, of tokensList]
  note nc = naive_unlimited_content [OF z, of tokensList]
  show ?thesis
    by (intro conjI allI) (rule same n0 nN tf sc nc)+
qed

theorem zero_budget_is_unlimited_witness:
  "spimi [[''the'', ''cat'', ''the''], [''the'', ''dog'']] (Some 0) =
     [(''cat'', [(1, 1)]), (''dog'', [(2, 1)]), (''the'', [(1, 2), (2, 1)])] \<and>
   naive [[''the'', ''cat'', ''the''], [''the'', ''dog'']] (Some 0) =
     [(''cat'', [1]), (''dog'', [2]), (''the'', [1, 2])] \<and>
   naive [[''the'', ''cat'', ''the''], [''the'', ''dog'']] None =
     [(''cat'', [1]), (''dog'', [2]), (''the'', [1, 2])] \<and>
   fst ` set (naive [[''the'', ''cat'', ''the''], [''the'', ''dog'']] None) =
     {''the'', ''cat'', ''dog''} \<and>
   total_tf (spimi [[''the'', ''cat'', ''the''], [''the'', ''dog'']] None) = 5"
proof -
  let ?c = "[[''the'', ''cat'', ''the''], [''the'', ''dog'']]"
  note inst = zero_budget_is_unlimited [of ?c]
  have sp: "spimi ?c (Some 0) =
      [(''cat'', [(1, 1)]), (''dog'', [(2, 1)]), (''the'', [(1, 2), (2, 1)])]"
    by code_simp
  have nv: "naive ?c (Some 0) = [(''cat'', [1]), (''dog'', [2]), (''the'', [1, 2])]"
    by code_simp
  have "naive ?c (Some 0) = naive ?c None"
    using inst by (elim conjE)
  then have nN: "naive ?c None = [(''cat'', [1]), (''dog'', [2]), (''the'', [1, 2])]"
    using nv by simp
  have "fst ` set (naive ?c (Some 0)) = set (concat ?c)"
    using inst by (elim conjE)
  then have keys: "fst ` set (naive ?c None) = {''the'', ''cat'', ''dog''}"
    unfolding nv nN by auto
  have total: "total_tf (spimi ?c (Some 0)) = int (sum_list (map length ?c))"
    using inst by (elim conjE)
  have "spimi ?c (Some 0) = spimi ?c None"
    using inst by (elim conjE)
  then have tf: "total_tf (spimi ?c None) = 5"
    using total by simp
  show ?thesis
    by (intro conjI) (rule sp nv nN keys tf)+
qed

text \<open>
  Claim C4.  For every non-empty list of postings lists whose present lists are
  strictly ascending, \<open>conjunction\<close> returns the empty indicator \<open>None\<close> when at least
  one list is absent, and otherwise returns exactly the DocumentIDs common to all
  the lists, in ascending order.
\<close>

theorem conjunction_correct:
  assumes "postingsLists \<noteq> []"
    and "\<forall>pl. Some pl \<in> set postingsLists \<longrightarrow> sorted_wrt (<) pl"
  shows "(None \<in> set postingsLists \<longrightarrow> conjunction postingsLists = Inr None) \<and>
         (None \<notin> set postingsLists \<longrightarrow>
            (\<exists>r. conjunction postingsLists = Inr (Some r) \<and> sorted_wrt (<) r \<and>
                 set r = {d. \<forall>pl. Some pl \<in> set postingsLists \<longrightarrow> d \<in> set pl}))"
proof (cases "None \<in> set postingsLists")
  case True
  then show ?thesis by (simp add: conjunction_def)
next
  case False
  let ?ls = "map the postingsLists"
  have mem: "pl \<in> set ?ls \<longleftrightarrow> Some pl \<in> set postingsLists" for pl
  proof
    assume "pl \<in> set ?ls"
    then obtain x where x: "x \<in> set postingsLists" "pl = the x" by auto
    have "x \<noteq> None" using x(1) False by metis
    then have "x = Some pl" using x(2) by (cases x) auto
    then show "Some pl \<in> set postingsLists" using x(1) by simp
  next
    assume "Some pl \<in> set postingsLists"
    then have "the (Some pl) \<in> set ?ls" by (simp only: set_map) (rule imageI)
    then show "pl \<in> set ?ls" by simp
  qed
  have "length (sort_key length ?ls) = length postingsLists" by simp
  then obtain final rest where fr: "sort_key length ?ls = final # rest"
    using assms(1) by (cases "sort_key length ?ls") auto
  have sets: "set (final # rest) = set ?ls"
    using fr by (metis set_sort)
  have in_ls: "sorted_wrt (<) pl" if "pl \<in> set (final # rest)" for pl
    using that sets mem assms(2) by blast
  have srt: "sorted_wrt (<) final" "\<forall>pl \<in> set rest. sorted_wrt (<) pl"
    using in_ls by simp_all
  note loop = conjunction_loop_correct [OF srt]
  have "set final \<inter> (\<Inter>pl \<in> set rest. set pl) = {d. \<forall>pl \<in> set (final # rest). d \<in> set pl}"
    by auto
  also have "\<dots> = {d. \<forall>pl. Some pl \<in> set postingsLists \<longrightarrow> d \<in> set pl}"
    using sets mem by blast
  finally have "set final \<inter> (\<Inter>pl \<in> set rest. set pl) =
      {d. \<forall>pl. Some pl \<in> set postingsLists \<longrightarrow> d \<in> set pl}" .
  then show ?thesis
    using False loop by (simp add: conjunction_def fr)
qed

theorem conjunction_correct_witness:
  "[Some [1, 3, 5, 7], Some [3, 7], Some [2, 3, 4, 7, 9 :: int]] \<noteq> [] \<and>
   conjunction [Some [1, 3, 5, 7], Some [3, 7], Some [2, 3, 4, 7, 9]] = Inr (Some [3, 7]) \<and>
   set [3, 7 :: int] =
     {d. \<forall>pl. Some pl \<in> set [Some [1, 3, 5, 7], Some [3, 7], Some [2, 3, 4, 7, 9]] \<longrightarrow> d \<in> set pl} \<and>
   conjunction [Some [1, 3], None, Some [3]] = Inr None"
proof -
  let ?ls = "[Some [1, 3, 5, 7], Some [3, 7], Some [2, 3, 4, 7, 9 :: int]]"
  let ?ms = "[Some [1, 3], None, Some [3 :: int]]"
  have ne: "?ls \<noteq> []" "?ms \<noteq> []"
    by simp_all
  have srt: "\<forall>pl. Some pl \<in> set ?ls \<longrightarrow> sorted_wrt (<) pl"
    by auto
  have srt2: "\<forall>pl. Some pl \<in> set ?ms \<longrightarrow> sorted_wrt (<) pl"
    by auto
  have val: "conjunction ?ls = Inr (Some [3, 7])"
    by code_simp
  have "None \<notin> set ?ls"
    by simp
  with conjunction_correct [OF ne(1) srt] obtain r
    where r: "conjunction ?ls = Inr (Some r)"
      "set r = {d. \<forall>pl. Some pl \<in> set ?ls \<longrightarrow> d \<in> set pl}"
    by blast
  have "r = [3, 7]"
    using r(1) val by simp
  with r(2) have a: "set [3, 7 :: int] = {d. \<forall>pl. Some pl \<in> set ?ls \<longrightarrow> d \<in> set pl}"
    by blast
  have "None \<in> set ?ms"
    by simp
  with conjunction_correct [OF ne(2) srt2] have b: "conjunction ?ms = Inr None"
    by blast
  show ?thesis
    using ne(1) val a b by blast
qed

text \<open>
  Claim C5.  For every list of postings lists, without query-term ranking,
  \<open>disjunction\<close> returns the empty indicator \<open>None\<close> when every list is absent, and
  otherwise returns exactly the union of the lists that are present, without
  duplicates and in ascending DocumentID order.
\<close>

theorem disjunction_unranked:
  "((\<forall>p \<in> set postingsLists. p = None) \<longrightarrow> disjunction postingsLists False = None) \<and>
   (\<not> (\<forall>p \<in> set postingsLists. p = None) \<longrightarrow>
      (\<exists>r. disjunction postingsLists False = Some (Postings r) \<and> sorted_wrt (<) r \<and>
           set r = {d. \<exists>pl. Some pl \<in> set postingsLists \<and> d \<in> set pl}))"
proof -
  define valid where "valid = map the (filter (\<lambda>plist. plist \<noteq> None) postingsLists)"
  define U where "U = sorted_list_of_set (set (concat valid))"
  have "set (concat valid) = {d. \<exists>pl. pl \<in> set valid \<and> d \<in> set pl}"
    by auto
  also have "\<dots> = {d. \<exists>pl. Some pl \<in> set postingsLists \<and> d \<in> set pl}"
    unfolding valid_def valid_lists_mem ..
  finally have c: "set (concat valid) =
      {d. \<exists>pl. Some pl \<in> set postingsLists \<and> d \<in> set pl}" .
  have "set U = set (concat valid)"
    by (simp add: U_def)
  then have u: "set U = {d. \<exists>pl. Some pl \<in> set postingsLists \<and> d \<in> set pl}"
    using c by (simp only:)
  have s: "sorted_wrt (<) U"
    by (simp add: U_def)
  have nil: "valid = [] \<longleftrightarrow> (\<forall>p \<in> set postingsLists. p = None)"
    unfolding valid_def by (rule valid_lists_Nil)
  have d: "disjunction postingsLists False = (if valid = [] then None else Some (Postings U))"
    by (simp add: disjunction_def Let_def valid_def U_def)
  show ?thesis
  proof (cases "valid = []")
    case True
    then show ?thesis using d nil by simp
  next
    case False
    then have "disjunction postingsLists False = Some (Postings U)" using d by simp
    then show ?thesis using False nil u s by blast
  qed
qed

theorem disjunction_unranked_witness:
  "disjunction [None, None] False = None \<and>
   disjunction [Some [1, 3], None, Some [2, 3]] False = Some (Postings [1, 2, 3]) \<and>
   set [1, 2, 3 :: int] =
     {d. \<exists>pl. Some pl \<in> set [Some [1, 3], None, Some [2, 3]] \<and> d \<in> set pl}"
proof -
  let ?ls = "[Some [1, 3], None, Some [2, 3 :: int]]"
  have "\<forall>p \<in> set [None, None :: int list option]. p = None"
    by simp
  with disjunction_unranked [of "[None, None]"] have a: "disjunction [None, None] False = None"
    by blast
  have val: "disjunction ?ls False = Some (Postings [1, 2, 3])"
    by code_simp
  have "\<not> (\<forall>p \<in> set ?ls. p = None)"
    by simp
  with disjunction_unranked [of ?ls] obtain r
    where r: "disjunction ?ls False = Some (Postings r)"
      "set r = {d. \<exists>pl. Some pl \<in> set ?ls \<and> d \<in> set pl}"
    by blast
  have "r = [1, 2, 3]"
    using r(1) val by simp
  with r(2) have b: "set [1, 2, 3 :: int] = {d. \<exists>pl. Some pl \<in> set ?ls \<and> d \<in> set pl}"
    by blast
  show ?thesis
    using a val b by blast
qed

text \<open>
  Claim C8.  For every list of postings lists with at least one list present, with
  query-term ranking, the matchCounts of the (DocumentID, matchCount) pairs that
  \<open>disjunction\<close> returns through \<open>queryTermRank\<close> sum to the sum of the lengths of the
  lists that are present.
\<close>

theorem disjunction_ranked_counts:
  assumes "\<exists>pl. Some pl \<in> set postingsLists"
  shows "\<exists>ranked. disjunction postingsLists True = Some (Ranked ranked) \<and>
           sum_list (map snd ranked) =
             int (sum_list (map (\<lambda>p. case p of None \<Rightarrow> 0 | Some pl \<Rightarrow> length pl)
                                postingsLists))"
proof -
  let ?valid = "map the (filter (\<lambda>plist. plist \<noteq> None) postingsLists)"
  have ne: "?valid \<noteq> []"
    using assms valid_lists_Nil [of postingsLists] by auto
  have "length (sort (concat ?valid)) = sum_list (map length ?valid)"
    by (simp add: length_concat)
  then have "sum_list (map snd (queryTermRank (sort (concat ?valid)))) =
      int (sum_list (map (\<lambda>p. case p of None \<Rightarrow> 0 | Some pl \<Rightarrow> length pl) postingsLists))"
    by (simp only: sum_snd_queryTermRank valid_lists_length)
  then show ?thesis
    using ne by (simp add: disjunction_def Let_def)
qed

theorem disjunction_ranked_counts_witness:
  "(\<exists>pl. Some pl \<in> set [Some [1, 3], None, Some [2, 3 :: int]]) \<and>
   disjunction [Some [1, 3], None, Some [2, 3]] True = Some (Ranked [(3, 2), (1, 1), (2, 1)]) \<and>
   sum_list (map snd [(3, 2), (1, 1), (2, 1 :: int) :: int \<times> int]) =
     int (sum_list (map (\<lambda>p. case p of None \<Rightarrow> 0 | Some pl \<Rightarrow> length pl)
                        [Some [1, 3], None, Some [2, 3 :: int]]))"
proof -
  let ?ls = "[Some [1, 3], None, Some [2, 3 :: int]]"
  have ex: "\<exists>pl. Some pl \<in> set ?ls"
    by auto
  have val: "disjunction ?ls True = Some (Ranked [(3, 2), (1, 1), (2, 1)])"
    by code_simp
  from disjunction_ranked_counts [OF ex] obtain ranked
    where r: "disjunction ?ls True = Some (Ranked ranked)"
      "sum_list (map snd ranked) =
         int (sum_list (map (\<lambda>p. case p of None \<Rightarrow> 0 | Some pl \<Rightarrow> length pl) ?ls))"
    by blast
  have "ranked = [(3, 2), (1, 1), (2, 1)]"
    using r(1) val by simp
  with r(2) have "sum_list (map snd [(3, 2), (1, 1), (2, 1 :: int) :: int \<times> int]) =
      int (sum_list (map (\<lambda>p. case p of None \<Rightarrow> 0 | Some pl \<Rightarrow> length pl) ?ls))"
    by blast
  then show ?thesis
    using ex val by blast
qed

text \<open>
  Claim C7.  The document-length lookup \<open>collection[int(docID)]\<close> of \<open>bm25\<close> reads
  the 0-based collection at a 1-based DocumentID.  For the DocumentID equal to the
  number \<open>N\<close> of documents the access is out of bounds; for every DocumentID from 1
  to \<open>N - 1\<close> it returns the document numbered one higher, and the loop body scores
  the posting with that document's length.  Whenever the candidate set contains
  the DocumentID \<open>N\<close> and a query term has a posting for it, \<open>bm25\<close> raises IndexError
  (for valid parameters, a collection with at least one token and term frequencies
  of at least 1, so that no other exception comes first).
\<close>

theorem bm25_document_length_off_by_one:
  "py_getitem collection (int (length collection)) = Inl IndexError \<and>
   (\<forall>d. 1 \<le> d \<and> d < int (length collection) \<longrightarrow>
        py_getitem collection d = Inr (doc_by_id collection (d + 1))) \<and>
   (\<forall>d. 1 \<le> d \<and> d < int (length collection) \<and> d \<in> set candidates \<longrightarrow>
        bm25_posting collection candidates k1 b L_avg idf (d, tf) rankedResults =
          (case bm25_score k1 b L_avg idf tf (length (doc_by_id collection (d + 1))) of
             Inl e \<Rightarrow> Inl e
           | Inr score \<Rightarrow>
               Inr (dict_set d ((case map_of rankedResults d of None \<Rightarrow> 0 | Some s \<Rightarrow> s) + score)
                      rankedResults))) \<and>
   (0 \<le> k1 \<and> 0 \<le> b \<and> b \<le> 1 \<and> 0 < sum_list (map length collection) \<and>
    (\<forall>t pl. map_of index t = Some pl \<longrightarrow> (\<forall>p \<in> set pl. 1 \<le> snd p)) \<and>
    term \<in> set queryTerms \<and> map_of index term = Some postingsList \<and>
    (int (length collection), tf') \<in> set postingsList \<and>
    int (length collection) \<in> set candidates \<longrightarrow>
    bm25 queryTerms (Some candidates) index collection k1 b = Inl IndexError)"
proof (intro conjI allI impI)
  show "py_getitem collection (int (length collection)) = Inl IndexError"
    by (rule py_getitem_at_length)
next
  fix d assume "1 \<le> d \<and> d < int (length collection)"
  then show "py_getitem collection d = Inr (doc_by_id collection (d + 1))"
    by (simp add: py_getitem_next)
next
  fix d assume "1 \<le> d \<and> d < int (length collection) \<and> d \<in> set candidates"
  then show "bm25_posting collection candidates k1 b L_avg idf (d, tf) rankedResults =
          (case bm25_score k1 b L_avg idf tf (length (doc_by_id collection (d + 1))) of
             Inl e \<Rightarrow> Inl e
           | Inr score \<Rightarrow>
               Inr (dict_set d ((case map_of rankedResults d of None \<Rightarrow> 0 | Some s \<Rightarrow> s) + score)
                      rankedResults))"
    by (simp add: bm25_posting_next)
next
  assume h: "0 \<le> k1 \<and> 0 \<le> b \<and> b \<le> 1 \<and> 0 < sum_list (map length collection) \<and>
    (\<forall>t pl. map_of index t = Some pl \<longrightarrow> (\<forall>p \<in> set pl. 1 \<le> snd p)) \<and>
    term \<in> set queryTerms \<and> map_of index term = Some postingsList \<and>
    (int (length collection), tf') \<in> set postingsList \<and>
    int (length collection) \<in> set candidates"
  then have ne: "collection \<noteq> []"
    by auto
  define L_avg' where
    "L_avg' = real (sum_list (map length collection)) / real (length collection)"
  have avg: "bm25_L_avg collection = Inr L_avg'"
    using ne by (simp add: bm25_L_avg_def Let_def L_avg'_def)
  have pos: "0 < L_avg'"
    using h ne by (simp add: L_avg'_def)
  have "bm25_terms collection candidates index k1 b L_avg' queryTerms [] = Inl IndexError"
    using h by (intro bm25_terms_at_length [OF _ _ _ pos ne]) blast+
  then show "bm25 queryTerms (Some candidates) index collection k1 b = Inl IndexError"
    by (simp add: bm25_def avg)
qed

theorem bm25_document_length_off_by_one_witness:
  "py_getitem [[''a''], [''b'', ''b'', ''b''], [''c'']] 1 = Inr [''b'', ''b'', ''b''] \<and>
   doc_by_id [[''a''], [''b'', ''b'', ''b''], [''c'']] 1 = [''a''] \<and>
   bm25 [''c'', ''x''] (Some [3])
        [(''a'', [(1, 1)]), (''b'', [(2, 3)]), (''c'', [(3, 1)])]
        [[''a''], [''b'', ''b'', ''b''], [''c'']] 1 1
     = Inl IndexError"
proof -
  let ?c = "[[''a''], [''b'', ''b'', ''b''], [''c'']]"
  let ?i = "[(''a'', [(1, 1)]), (''b'', [(2, 3)]), (''c'', [(3, 1 :: int)])] :: spimi_index"
  note inst = bm25_document_length_off_by_one
    [of ?c "[3]" 1 1 1 0 1 "[]" ?i "''c''" "[''c'', ''x'']" "[(3, 1)]" 1]
  have tfs: "\<forall>t pl. map_of ?i t = Some pl \<longrightarrow> (\<forall>p \<in> set pl. 1 \<le> snd p)"
    by (auto split: if_splits)
  have a: "py_getitem ?c 1 = Inr (doc_by_id ?c (1 + 1))"
    using inst by simp
  have b: "bm25 [''c'', ''x''] (Some [3]) ?i ?c 1 1 = Inl IndexError"
    using inst tfs by simp
  show ?thesis
    using a b by (simp add: doc_by_id_def)
qed



text \<open>
  Claim C3 says that the score accumulated for a candidate document \<open>d\<close> is the sum
  of the contributions \<open>idf(t) * (tf * (k1 + 1)) / (k1 * ((1 - b) + b * (L_d / avgDocLength)) + tf)\<close>
  with \<open>L_d\<close> the length of document \<open>d\<close> itself.  The code does not do that: for the
  collection of three documents below, its \<open>spimi\<close> index, the query terms
  \<open>a\<close> and \<open>x\<close> combined with OR (candidate set \<open>[1]\<close>) and \<open>k1 = b = 1\<close>, \<open>bm25\<close>
  scores document 1 with the length 3 of document 2 and returns \<open>ln 3 * 5 / 7\<close>,
  where the formula of the claim, with the length 1 of document 1, gives
  \<open>ln 3 * 5 / 4\<close>.
\<close>

theorem bm25_score_uses_next_document:
  "spimi [[''a''], [''b'', ''b'', ''b''], [''c'']] None =
     [(''a'', [(1, 1)]), (''b'', [(2, 3)]), (''c'', [(3, 1)])] \<and>
   disjunction [Some [1], None] False = Some (Postings [1]) \<and>
   bm25 [''a'', ''x''] (Some [1]) (spimi [[''a''], [''b'', ''b'', ''b''], [''c'']] None)
        [[''a''], [''b'', ''b'', ''b''], [''c'']] 1 1
     = Inr (Some [(1, ln 3 * (5 / 7))]) \<and>
   spec_contribution [[''a''], [''b'', ''b'', ''b''], [''c'']] 1 1 1 (1, 1) = ln 3 * (5 / 4) \<and>
   ln 3 * (5 / 7) \<noteq> ln 3 * (5 / 4 :: real)"
proof -
  let ?c = "[[''a''], [''b'', ''b'', ''b''], [''c'']]"
  have index: "spimi ?c None = [(''a'', [(1, 1)]), (''b'', [(2, 3)]), (''c'', [(3, 1)])]"
    by code_simp
  have candidates: "disjunction [Some [1], None] False = Some (Postings [1])"
    by code_simp
  have code: "bm25 [''a'', ''x''] (Some [1]) (spimi ?c None) ?c 1 1
      = Inr (Some [(1, ln 3 * (5 / 7))])"
    unfolding index
    by (simp add: bm25_def bm25_L_avg_def bm25_idf_def py_log_def bm25_posting_def
        py_getitem_def bm25_score_def Let_def sorted_reverse_def)
  have spec: "spec_contribution ?c 1 1 1 (1, 1) = ln 3 * (5 / 4)"
    by (simp add: spec_contribution_def spec_idf_def spec_avgDocLength_def doc_by_id_def)
  have "ln 3 * (5 / 7) \<noteq> ln 3 * (5 / 4 :: real)"
    by simp
  then show ?thesis
    using index candidates code spec by blast
qed

end
